theory Spec2Isabelle
  imports Main "HOL-Library.Multiset"
begin

section \<open>Failures\<close>

text \<open>
  The program has two ways of giving up: the macro \<open>ERROR\<close> (a message, then \<open>exit(1)\<close>)
  and the macro \<open>ABORT\<close> (a message, then \<open>abort()\<close>). Both are values here; the string is
  the format string of the message.
\<close>

datatype failure = ERROR string | ABORT string

section \<open>The command-line argument parser\<close>

datatype argtype = ARG_NO_PARAM | ARG_STRING_PARAM | ARG_LONG_PARAM | ARG_INT_ARRAY_PARAM

record argdef =
  short_desc :: char
  long_desc :: string
  type :: argtype

definition mk_argdef :: "char \<Rightarrow> string \<Rightarrow> argtype \<Rightarrow> argdef" where
  "mk_argdef s l t = \<lparr>short_desc = s, long_desc = l, type = t\<rparr>"

text \<open>The table \<open>argdefs\<close>, the sentinel entry included.\<close>

definition argdefs :: "argdef list" where
  "argdefs =
    [mk_argdef CHR ''h'' ''help'' ARG_NO_PARAM,
     mk_argdef CHR ''u'' ''usage'' ARG_NO_PARAM,
     mk_argdef CHR ''v'' ''verbose'' ARG_NO_PARAM,
     mk_argdef CHR ''g'' ''graph'' ARG_NO_PARAM,
     mk_argdef CHR ''n'' ''no-cnf'' ARG_NO_PARAM,
     mk_argdef CHR ''s'' ''symmetry-only'' ARG_NO_PARAM,
     mk_argdef CHR ''i'' ''incremental'' ARG_NO_PARAM,
     mk_argdef CHR ''t'' ''threshold'' ARG_LONG_PARAM,
     mk_argdef CHR ''l'' ''length'' ARG_LONG_PARAM,
     mk_argdef CHR ''p'' ''prefix'' ARG_INT_ARRAY_PARAM,
     mk_argdef CHR ''f'' ''file'' ARG_STRING_PARAM,
     mk_argdef CHR ''o'' ''output'' ARG_STRING_PARAM,
     mk_argdef CHR ''Z'' ''ZZZZZZ'' ARG_NO_PARAM]"

text \<open>\<open>argdefs_count\<close>: the entries before the sentinel, counted by the first loop of
  \<open>arg_parse\<close>.\<close>

definition argdefs_count :: nat where
  "argdefs_count = length (takeWhile (\<lambda>d. short_desc d \<noteq> CHR ''Z'') argdefs)"

text \<open>A parsed parameter: \<open>NULL\<close>, a pointer to a \<open>long\<close>, a copied string, or an \<open>int\<close>
  array whose first entry is the number of entries that follow.\<close>

datatype param = NoParam | LongParam int | StringParam string | IntArrayParam "int list"

type_synonym parsed = "(string \<times> param) list"

text \<open>The character \<open>s[j]\<close> of a C string: the terminating NUL at and past its end.\<close>

definition chr_at :: "string \<Rightarrow> nat \<Rightarrow> char" where
  "chr_at s j = (if j < length s then s ! j else CHR 0x00)"

text \<open>
  \<open>sscanf(s, "%d", &v) == 1\<close> and the value read: white space is skipped, an optional
  sign and at least one decimal digit are read, and reading stops at the first character
  which is not a digit. The C library reads the digits with \<open>strtol\<close>, which gives \<open>LONG_MAX\<close>
  or \<open>LONG_MIN\<close> for a number outside the range of \<open>long\<close> (64 bits); \<open>%ld\<close> stores this
  value (\<open>sscanf_ld\<close>), and \<open>%d\<close> stores its low 32 bits as an \<open>int\<close> (\<open>sscanf_d\<close>).
\<close>

definition isspace :: "char \<Rightarrow> bool" where
  "isspace c = (c = CHR '' '' \<or> c = CHR 0x09 \<or> c = CHR 0x0A \<or> c = CHR 0x0B
      \<or> c = CHR 0x0C \<or> c = CHR 0x0D)"

definition isdigit :: "char \<Rightarrow> bool" where
  "isdigit c = (48 \<le> (of_char c :: nat) \<and> (of_char c :: nat) \<le> 57)"

fun scan_digits :: "string \<Rightarrow> int \<Rightarrow> int" where
  "scan_digits [] acc = acc"
| "scan_digits (c # cs) acc =
     (if isdigit c then scan_digits cs (10 * acc + (int (of_char c) - 48)) else acc)"

definition scan_unsigned :: "string \<Rightarrow> int option" where
  "scan_unsigned s =
     (case s of [] \<Rightarrow> None
      | c # cs \<Rightarrow> if isdigit c then Some (scan_digits s 0) else None)"

definition scan_signed :: "string \<Rightarrow> int option" where
  "scan_signed s =
     (case dropWhile isspace s of
        [] \<Rightarrow> None
      | c # cs \<Rightarrow>
          if c = CHR ''-'' then map_option uminus (scan_unsigned cs)
          else if c = CHR ''+'' then scan_unsigned cs
          else scan_unsigned (c # cs))"

definition strtol_range :: "int \<Rightarrow> int" where
  "strtol_range x = max (- (2 ^ 63)) (min x (2 ^ 63 - 1))"

definition low_int :: "int \<Rightarrow> int" where
  "low_int x = (x + 2 ^ 31) mod 2 ^ 32 - 2 ^ 31"

definition sscanf_ld :: "string \<Rightarrow> int option" where
  "sscanf_ld s = map_option strtol_range (scan_signed s)"

definition sscanf_d :: "string \<Rightarrow> int option" where
  "sscanf_d s = map_option (\<lambda>x. low_int (strtol_range x)) (scan_signed s)"

definition arg_get_long :: "string list \<Rightarrow> nat \<Rightarrow> failure + (param \<times> nat)" where
  "arg_get_long argv i =
     (if i + 1 \<ge> length argv
      then Inl (ERROR ''expected an integer parameter but ran out of arguments'')
      else case sscanf_ld (argv ! (i + 1)) of
             None \<Rightarrow> Inl (ERROR ''parse error in parameter at the command line'')
           | Some l \<Rightarrow> Inr (LongParam l, i + 1))"

definition arg_get_string :: "string list \<Rightarrow> nat \<Rightarrow> failure + (param \<times> nat)" where
  "arg_get_string argv i =
     (if i + 1 \<ge> length argv
      then Inl (ERROR ''expected a string parameter but ran out of arguments'')
      else if chr_at (argv ! (i + 1)) 0 = CHR ''-''
      then Inl (ERROR ''expected a string parameter but got an argument'')
      else Inr (StringParam (argv ! (i + 1)), i + 1))"

text \<open>The second loop of \<open>arg_get_int_array\<close>: each parameter is read with \<open>%d\<close> and stored
  less one (an \<open>int\<close> again: the subtraction wraps around at \<open>INT_MIN\<close> in the compiled
  program).\<close>

fun scan_int_array :: "string list \<Rightarrow> failure + int list" where
  "scan_int_array [] = Inr []"
| "scan_int_array (s # ss) =
     (case sscanf_d s of
        None \<Rightarrow> Inl (ERROR ''parse error in parameter at the command line'')
      | Some v \<Rightarrow>
          (case scan_int_array ss of
             Inl e \<Rightarrow> Inl e
           | Inr b \<Rightarrow> Inr (low_int (v - 1) # b)))"

definition arg_get_int_array :: "string list \<Rightarrow> nat \<Rightarrow> failure + (param \<times> nat)" where
  "arg_get_int_array argv i =
     (let j = i + 1 + length (takeWhile (\<lambda>s. chr_at s 0 \<noteq> CHR ''-'') (drop (i + 1) argv));
          len = j - (i + 1)
      in case scan_int_array (take len (drop (i + 1) argv)) of
           Inl e \<Rightarrow> Inl e
         | Inr b \<Rightarrow> Inr (IntArrayParam (int len # b), j - 1))"

text \<open>The searches \<open>for(; k < argdefs_count; k++)\<close> for a short and for a long name.\<close>

definition find_short :: "char \<Rightarrow> argdef option" where
  "find_short d = find (\<lambda>a. short_desc a = d) (take argdefs_count argdefs)"

definition find_long :: "string \<Rightarrow> argdef option" where
  "find_long d = find (\<lambda>a. long_desc a = d) (take argdefs_count argdefs)"

text \<open>The first pass of \<open>arg_parse\<close> checks and counts the arguments.\<close>

fun check_short :: "string \<Rightarrow> nat \<Rightarrow> failure + nat" where
  "check_short [] c = Inr c"
| "check_short (d # ds) c =
     (case find_short d of
        None \<Rightarrow> Inl (ERROR ''unrecognized argument -%c at command line'')
      | Some a \<Rightarrow>
          if type a \<noteq> ARG_NO_PARAM \<and> ds \<noteq> []
          then Inl (ERROR ''argument -%c should be immediately followed by a parameter'')
          else check_short ds (c + 1))"

fun check_args :: "string list \<Rightarrow> nat \<Rightarrow> failure + nat" where
  "check_args [] c = Inr c"
| "check_args (a # as) c =
     (if chr_at a 0 = CHR ''-'' \<and> chr_at a 1 \<noteq> CHR ''-'' then
        (case check_short (drop 1 a) c of
           Inl e \<Rightarrow> Inl e
         | Inr c' \<Rightarrow> check_args as c')
      else if chr_at a 0 = CHR ''-'' \<and> chr_at a 1 = CHR ''-'' then
        (case find_long (drop 2 a) of
           None \<Rightarrow> Inl (ERROR ''unrecognized argument --%s at command line'')
         | Some d \<Rightarrow> check_args as (c + 1))
      else check_args as c)"

text \<open>The second pass. In a short-form argument the letters are read one by one until one
  of them takes a parameter (\<open>stop = 1\<close>); the result is the index \<open>i\<close> of the last argument
  consumed and the parsed arguments so far.\<close>

definition duplicate :: "string \<Rightarrow> parsed \<Rightarrow> bool" where
  "duplicate s ps = (s \<in> set (map fst ps))"

fun parse_short :: "string list \<Rightarrow> nat \<Rightarrow> string \<Rightarrow> parsed \<Rightarrow> failure + (nat \<times> parsed)" where
  "parse_short argv i [] ps = Inr (i, ps)"
| "parse_short argv i (d # ds) ps =
     (case find_short d of
        None \<Rightarrow> Inl (ERROR ''unrecognized argument -%c at command line'')
      | Some a \<Rightarrow>
          if duplicate (long_desc a) ps
          then Inl (ERROR ''duplicate argument %s at command line'')
          else (case type a of
                  ARG_NO_PARAM \<Rightarrow> parse_short argv i ds (ps @ [(long_desc a, NoParam)])
                | ARG_LONG_PARAM \<Rightarrow>
                    (case arg_get_long argv i of
                       Inl e \<Rightarrow> Inl e
                     | Inr (v, i') \<Rightarrow> Inr (i', ps @ [(long_desc a, v)]))
                | ARG_INT_ARRAY_PARAM \<Rightarrow>
                    (case arg_get_int_array argv i of
                       Inl e \<Rightarrow> Inl e
                     | Inr (v, i') \<Rightarrow> Inr (i', ps @ [(long_desc a, v)]))
                | ARG_STRING_PARAM \<Rightarrow>
                    (case arg_get_string argv i of
                       Inl e \<Rightarrow> Inl e
                     | Inr (v, i') \<Rightarrow> Inr (i', ps @ [(long_desc a, v)]))))"

text \<open>A long-form argument; the case \<open>ARG_INT_ARRAY_PARAM\<close> calls \<open>arg_get_long\<close>, as the
  source does.\<close>

definition parse_long :: "string list \<Rightarrow> nat \<Rightarrow> string \<Rightarrow> parsed \<Rightarrow> failure + (nat \<times> parsed)" where
  "parse_long argv i d ps =
     (case find_long d of
        None \<Rightarrow> Inl (ERROR ''unrecognized argument --%s at command line'')
      | Some a \<Rightarrow>
          if duplicate (long_desc a) ps
          then Inl (ERROR ''duplicate argument %s at command line'')
          else (case type a of
                  ARG_NO_PARAM \<Rightarrow> Inr (i, ps @ [(long_desc a, NoParam)])
                | ARG_LONG_PARAM \<Rightarrow>
                    (case arg_get_long argv i of
                       Inl e \<Rightarrow> Inl e
                     | Inr (v, i') \<Rightarrow> Inr (i', ps @ [(long_desc a, v)]))
                | ARG_INT_ARRAY_PARAM \<Rightarrow>
                    (case arg_get_long argv i of
                       Inl e \<Rightarrow> Inl e
                     | Inr (v, i') \<Rightarrow> Inr (i', ps @ [(long_desc a, v)]))
                | ARG_STRING_PARAM \<Rightarrow>
                    (case arg_get_string argv i of
                       Inl e \<Rightarrow> Inl e
                     | Inr (v, i') \<Rightarrow> Inr (i', ps @ [(long_desc a, v)]))))"

definition parse_one :: "string list \<Rightarrow> nat \<Rightarrow> parsed \<Rightarrow> failure + (nat \<times> parsed)" where
  "parse_one argv i ps =
     (let a = argv ! i in
      if chr_at a 0 = CHR ''-'' \<and> chr_at a 1 \<noteq> CHR ''-'' then parse_short argv i (drop 1 a) ps
      else if chr_at a 0 = CHR ''-'' \<and> chr_at a 1 = CHR ''-'' then parse_long argv i (drop 2 a) ps
      else Inl (ERROR ''bad argument %s at command line''))"

lemma arg_get_long_ge: "arg_get_long argv i = Inr (v, i') \<Longrightarrow> i \<le> i'"
  by (auto simp: arg_get_long_def split: if_splits option.splits)

lemma arg_get_string_ge: "arg_get_string argv i = Inr (v, i') \<Longrightarrow> i \<le> i'"
  by (auto simp: arg_get_string_def split: if_splits)

lemma arg_get_int_array_ge: "arg_get_int_array argv i = Inr (v, i') \<Longrightarrow> i \<le> i'"
  by (auto simp: arg_get_int_array_def Let_def split: sum.splits)

lemma parse_short_ge: "parse_short argv i ds ps = Inr (i', ps') \<Longrightarrow> i \<le> i'"
proof (induction ds arbitrary: ps)
  case Nil
  then show ?case by simp
next
  case (Cons d ds)
  then show ?case
    by (auto split: option.splits if_splits argtype.splits sum.splits
        dest: arg_get_long_ge arg_get_string_ge arg_get_int_array_ge)
qed

lemma parse_long_ge: "parse_long argv i d ps = Inr (i', ps') \<Longrightarrow> i \<le> i'"
  by (auto simp: parse_long_def split: option.splits if_splits argtype.splits sum.splits
      dest: arg_get_long_ge arg_get_string_ge)

lemma parse_one_ge: "parse_one argv i ps = Inr (i', ps') \<Longrightarrow> i \<le> i'"
  by (auto simp: parse_one_def Let_def split: if_splits dest: parse_short_ge parse_long_ge)

function parse_args :: "string list \<Rightarrow> nat \<Rightarrow> parsed \<Rightarrow> failure + parsed" where
  "parse_args argv i ps =
     (if i < length argv then
        (case parse_one argv i ps of
           Inl e \<Rightarrow> Inl e
         | Inr (i', ps') \<Rightarrow> parse_args argv (i' + 1) ps')
      else Inr ps)"
  by pat_completeness auto
termination
proof (relation "measure (\<lambda>(argv, i, ps). length argv - i)")
  show "wf (measure (\<lambda>(argv, i, ps). length argv - i))" by simp
next
  fix argv :: "string list" and i :: nat and ps :: parsed and x2 x y
  assume "i < length argv" and "parse_one argv i ps = Inr x2" and "(x, y) = x2"
  then have "i \<le> x" using parse_one_ge[of argv i ps x y] by simp
  with \<open>i < length argv\<close>
  show "((argv, x + 1, y), (argv, i, ps)) \<in> measure (\<lambda>(argv, i, ps). length argv - i)"
    by simp
qed

declare parse_args.simps [simp del]

definition arg_parse :: "string list \<Rightarrow> failure + parsed" where
  "arg_parse argv =
     (case check_args (drop 1 argv) 0 of
        Inl e \<Rightarrow> Inl e
      | Inr c \<Rightarrow> parse_args argv 1 [])"

subsection \<open>The prefix on the command line\<close>

text \<open>
  Claim C9 says that \<open>--prefix i1 i2 ...\<close> and \<open>-p i1 i2 ...\<close> store the same prefix. The
  short form reads the whole sequence with \<open>arg_get_int_array\<close>; the long form reads one
  \<open>long\<close> with \<open>arg_get_long\<close> and then meets the second number as a bad argument. The
  parser run on both command lines: the short form stores the array (its length first, the
  entries 0-indexed), the long form ends in \<open>ERROR\<close>.
\<close>

theorem arg_parse_prefix_short_long:
  "arg_parse [''reduce'', ''-p'', ''1'', ''2''] = Inr [(''prefix'', IntArrayParam [2, 0, 1])]
   \<and> arg_parse [''reduce'', ''--prefix'', ''1'', ''2'']
       = Inl (ERROR ''bad argument %s at command line'')
   \<and> arg_parse [''reduce'', ''-p'', ''3''] = Inr [(''prefix'', IntArrayParam [1, 2])]
   \<and> arg_parse [''reduce'', ''--prefix'', ''3''] = Inr [(''prefix'', LongParam 3)]"
  by code_simp

section \<open>Sorting\<close>

text \<open>
  \<open>heapsort_int\<close>, \<open>heapsort_long\<close> and \<open>heapsort_int_indirect\<close> are one routine written three
  times: they differ in the type of the entries and in the key by which two entries are
  compared (the entry itself, or \<open>a[p]\<close> for the indirect sort of \<open>p\<close>). The model is the
  routine with the key as a parameter. The array is indexed from 1, as after the shift
  \<open>a--\<close> of the source: entry \<open>x\<close> is \<open>a ! (x - 1)\<close>.

  \<open>sift_up\<close> is the inner loop of the heap building, \<open>sift_down\<close> the inner loop of the
  deletion of the maximum (it returns the array and the place \<open>x\<close> where \<open>t\<close> is to go;
  \<open>x\<close> starts at 1 and only grows, which the test \<open>0 < x\<close> records for the termination
  proof).
\<close>


function sift_up :: "('a \<Rightarrow> 'k::linorder) \<Rightarrow> 'a list \<Rightarrow> nat \<Rightarrow> 'a list" where
  "sift_up key a x =
     (if 1 < x then
        (let y = x div 2 in
         if key (a ! (x - 1)) \<le> key (a ! (y - 1)) then a
         else sift_up key (a[x - 1 := a ! (y - 1), y - 1 := a ! (x - 1)]) y)
      else a)"
  by pat_completeness auto
termination
  by (relation "measure (\<lambda>(key, a, x). x)") auto

declare sift_up.simps [simp del]

function sift_down ::
  "('a \<Rightarrow> 'k::linorder) \<Rightarrow> 'a list \<Rightarrow> 'a \<Rightarrow> nat \<Rightarrow> nat \<Rightarrow> 'a list \<times> nat" where
  "sift_down key a t i x =
     (let y = 2 * x in
      if 0 < x \<and> y < i then
        (let z = 2 * x + 1;
             y' = (if z < i \<and> key (a ! (y - 1)) < key (a ! (z - 1)) then z else y)
         in if key t \<ge> key (a ! (y' - 1)) then (a, x)
            else sift_down key (a[x - 1 := a ! (y' - 1)]) t i y')
      else (a, x))"
  by pat_completeness auto
termination
  by (relation "measure (\<lambda>(key, a, t, i, x). i - x)") (auto split: if_splits)

declare sift_down.simps [simp del]

definition delete_max :: "('a \<Rightarrow> 'k::linorder) \<Rightarrow> 'a list \<Rightarrow> nat \<Rightarrow> 'a list" where
  "delete_max key a i =
     (let t = a ! (i - 1); a1 = a[i - 1 := a ! 0]
      in case sift_down key a1 t i 1 of (a2, x) \<Rightarrow> a2[x - 1 := t])"

definition heapsort_key :: "('a \<Rightarrow> 'k::linorder) \<Rightarrow> 'a list \<Rightarrow> 'a list" where
  "heapsort_key key a =
     foldl (delete_max key) (foldl (sift_up key) a [2..<Suc (length a)])
       (rev [2..<Suc (length a)])"


definition heapsort_int :: "nat list \<Rightarrow> nat list" where
  "heapsort_int a = heapsort_key (\<lambda>v. v) a"

definition heapsort_int_indirect :: "nat list \<Rightarrow> nat list \<Rightarrow> nat list" where
  "heapsort_int_indirect a p = heapsort_key (\<lambda>v. a ! v) p"

subsection \<open>Heapsort sorts\<close>

definition heap_upto :: "('a \<Rightarrow> 'k::linorder) \<Rightarrow> 'a list \<Rightarrow> nat \<Rightarrow> bool" where
  "heap_upto key a m = (\<forall>k. 2 \<le> k \<and> k \<le> m \<longrightarrow> key (a ! (k - 1)) \<le> key (a ! (k div 2 - 1)))"

definition heap_but :: "('a \<Rightarrow> 'k::linorder) \<Rightarrow> 'a list \<Rightarrow> nat \<Rightarrow> nat \<Rightarrow> bool" where
  "heap_but key a m x =
     ((\<forall>k. 2 \<le> k \<and> k \<le> m \<and> k \<noteq> x \<longrightarrow> key (a ! (k - 1)) \<le> key (a ! (k div 2 - 1))) \<and>
      (2 \<le> x \<longrightarrow> (\<forall>k. k \<le> m \<and> k div 2 = x \<longrightarrow> key (a ! (k - 1)) \<le> key (a ! (x div 2 - 1)))))"

lemma sift_up_length [simp]: "length (sift_up key a x) = length a"
  by (induction key a x rule: sift_up.induct) (subst sift_up.simps, simp add: Let_def)

lemma sift_up_mset: "x \<le> length a \<Longrightarrow> mset (sift_up key a x) = mset a"
proof (induction key a x rule: sift_up.induct)
  case (1 key a x)
  show ?case
  proof (cases "1 < x \<and> \<not> key (a ! (x - 1)) \<le> key (a ! (x div 2 - 1))")
    case True
    then have "mset (sift_up key a x)
        = mset (sift_up key (a[x - 1 := a ! (x div 2 - 1), x div 2 - 1 := a ! (x - 1)]) (x div 2))"
      by (subst sift_up.simps) (simp add: Let_def)
    also have "\<dots> = mset (a[x - 1 := a ! (x div 2 - 1), x div 2 - 1 := a ! (x - 1)])"
      using True "1.prems" by (intro "1.IH") auto
    also have "\<dots> = mset a"
      using True "1.prems" by (intro mset_swap) auto
    finally show ?thesis .
  next
    case False
    then show ?thesis by (subst sift_up.simps) (auto simp: Let_def)
  qed
qed

lemma sift_up_heap:
  "heap_but key a m x \<Longrightarrow> x \<le> m \<Longrightarrow> m \<le> length a \<Longrightarrow> heap_upto key (sift_up key a x) m"
proof (induction key a x rule: sift_up.induct)
  case (1 key a x)
  let ?y = "x div 2"
  show ?case
  proof (cases "1 < x")
    case False
    then have "sift_up key a x = a" by (subst sift_up.simps) simp
    moreover have "heap_upto key a m"
      unfolding heap_upto_def
    proof (intro allI impI)
      fix k assume k: "2 \<le> k \<and> k \<le> m"
      with False have "k \<noteq> x" by simp
      with k "1.prems"(1) show "key (a ! (k - 1)) \<le> key (a ! (k div 2 - 1))"
        by (simp add: heap_but_def)
    qed
    ultimately show ?thesis by simp
  next
    case x1: True
    show ?thesis
    proof (cases "key (a ! (x - 1)) \<le> key (a ! (?y - 1))")
      case True
      then have "sift_up key a x = a" by (subst sift_up.simps) (simp add: Let_def)
      moreover have "heap_upto key a m"
        unfolding heap_upto_def
      proof (intro allI impI)
        fix k assume k: "2 \<le> k \<and> k \<le> m"
        show "key (a ! (k - 1)) \<le> key (a ! (k div 2 - 1))"
        proof (cases "k = x")
          case True
          then show ?thesis using \<open>key (a ! (x - 1)) \<le> key (a ! (?y - 1))\<close> by simp
        next
          case False
          with k "1.prems"(1) show ?thesis by (simp add: heap_but_def)
        qed
      qed
      ultimately show ?thesis by simp
    next
      case lt: False
      let ?a = "a[x - 1 := a ! (?y - 1), ?y - 1 := a ! (x - 1)]"
      have y1: "1 \<le> ?y" "?y < x" using x1 by auto
      have xl: "x \<le> length a" using "1.prems" by simp
      have el: "\<And>k. 1 \<le> k \<Longrightarrow> k \<le> length a \<Longrightarrow>
          ?a ! (k - 1) = (if k = ?y then a ! (x - 1) else if k = x then a ! (?y - 1) else a ! (k - 1))"
        using y1 xl by (auto simp: nth_list_update)
      from "1.prems"(1) have H1: "\<And>k. 2 \<le> k \<Longrightarrow> k \<le> m \<Longrightarrow> k \<noteq> x \<Longrightarrow>
            key (a ! (k - 1)) \<le> key (a ! (k div 2 - 1))"
        and H2: "\<And>k. 2 \<le> x \<Longrightarrow> k \<le> m \<Longrightarrow> k div 2 = x \<Longrightarrow>
            key (a ! (k - 1)) \<le> key (a ! (x div 2 - 1))"
        by (auto simp: heap_but_def)
      have "heap_but key ?a m ?y"
        unfolding heap_but_def
      proof (intro conjI allI impI)
        fix k assume k: "2 \<le> k \<and> k \<le> m \<and> k \<noteq> ?y"
        then have kl: "1 \<le> k" "k \<le> length a" "1 \<le> k div 2" "k div 2 \<le> length a" "k div 2 < k"
          using "1.prems" by auto
        show "key (?a ! (k - 1)) \<le> key (?a ! (k div 2 - 1))"
        proof (cases "k = x")
          case True
          then show ?thesis using lt el[OF kl(1,2)] el[OF kl(3,4)] y1 by auto
        next
          case False
          note kx = this
          show ?thesis
          proof (cases "k div 2 = x")
            case True
            with H2[of k] k x1 have "key (a ! (k - 1)) \<le> key (a ! (?y - 1))" by simp
            then show ?thesis using True kx k el[OF kl(1,2)] el[OF kl(3,4)] y1 by auto
          next
            case False
            note px = this
            show ?thesis
            proof (cases "k div 2 = ?y")
              case True
              from H1[of k] k kx have "key (a ! (k - 1)) \<le> key (a ! (?y - 1))" using True by simp
              with lt have "key (a ! (k - 1)) \<le> key (a ! (x - 1))" by auto
              then show ?thesis using True kx k el[OF kl(1,2)] el[OF kl(3,4)] by auto
            next
              case False
              with px kx k H1[of k] show ?thesis using el[OF kl(1,2)] el[OF kl(3,4)] by auto
            qed
          qed
        qed
      next
        fix k assume y2: "2 \<le> ?y" and k: "k \<le> m \<and> k div 2 = ?y"
        then have kl: "1 \<le> k" "k \<le> length a" "k \<noteq> ?y" "2 \<le> k"
          using "1.prems" by auto
        have yy: "1 \<le> ?y div 2" "?y div 2 \<le> length a" "?y div 2 \<noteq> ?y" "?y div 2 \<noteq> x"
          using y2 y1 xl by auto
        have py: "key (a ! (?y - 1)) \<le> key (a ! (?y div 2 - 1))"
          using H1[of ?y] y2 y1 "1.prems" by auto
        show "key (?a ! (k - 1)) \<le> key (?a ! (?y div 2 - 1))"
        proof (cases "k = x")
          case True
          then show ?thesis using py el[OF kl(1,2)] el[OF yy(1,2)] yy kl by auto
        next
          case False
          with H1[of k] k kl have "key (a ! (k - 1)) \<le> key (a ! (?y - 1))" by auto
          with py have "key (a ! (k - 1)) \<le> key (a ! (?y div 2 - 1))" by auto
          then show ?thesis using False el[OF kl(1,2)] el[OF yy(1,2)] yy kl by auto
        qed
      qed
      moreover have "?y \<le> m" using y1 "1.prems" by simp
      moreover have "m \<le> length ?a" using "1.prems" by simp
      ultimately have "heap_upto key (sift_up key ?a ?y) m"
        using x1 lt by (intro "1.IH") auto
      moreover have "sift_up key a x = sift_up key ?a ?y"
        using x1 lt by (subst sift_up.simps) (simp add: Let_def)
      ultimately show ?thesis by simp
    qed
  qed
qed

lemma build_heap_length [simp]: "length (foldl (sift_up key) a xs) = length a"
  by (induction xs arbitrary: a) auto

lemma build_heap_mset:
  "\<forall>x\<in>set xs. x \<le> length a \<Longrightarrow> mset (foldl (sift_up key) a xs) = mset a"
  by (induction xs arbitrary: a) (auto simp: sift_up_mset)

lemma build_heap:
  "m \<le> length a \<Longrightarrow> heap_upto key (foldl (sift_up key) a [2..<Suc m]) m"
proof (induction m)
  case 0
  then show ?case by (simp add: heap_upto_def)
next
  case (Suc m)
  show ?case
  proof (cases "m = 0")
    case True
    then show ?thesis by (simp add: heap_upto_def)
  next
    case False
    let ?b = "foldl (sift_up key) a [2..<Suc m]"
    from Suc have h: "heap_upto key ?b m" by simp
    have "heap_but key ?b (Suc m) (Suc m)"
      using h by (auto simp: heap_but_def heap_upto_def)
    then have "heap_upto key (sift_up key ?b (Suc m)) (Suc m)"
      using Suc.prems by (intro sift_up_heap) auto
    moreover have "[2..<Suc (Suc m)] = [2..<Suc m] @ [Suc m]" using False by simp
    ultimately show ?thesis by simp
  qed
qed

definition hole_inv :: "('a \<Rightarrow> 'k::linorder) \<Rightarrow> 'a list \<Rightarrow> 'a \<Rightarrow> nat \<Rightarrow> nat \<Rightarrow> bool" where
  "hole_inv key a t i x =
     (1 \<le> x \<and> x < i \<and>
      (\<forall>k. 2 \<le> k \<and> k < i \<and> k \<noteq> x \<and> k div 2 \<noteq> x \<longrightarrow>
           key (a ! (k - 1)) \<le> key (a ! (k div 2 - 1))) \<and>
      (2 \<le> x \<longrightarrow> (\<forall>k. k < i \<and> k div 2 = x \<longrightarrow> key (a ! (k - 1)) \<le> key (a ! (x div 2 - 1)))) \<and>
      (2 \<le> x \<longrightarrow> key t \<le> key (a ! (x div 2 - 1))))"

definition big_child :: "('a \<Rightarrow> 'k::linorder) \<Rightarrow> 'a list \<Rightarrow> nat \<Rightarrow> nat \<Rightarrow> nat" where
  "big_child key a i x =
     (if 2 * x + 1 < i \<and> key (a ! (2 * x - 1)) < key (a ! (2 * x + 1 - 1)) then 2 * x + 1
      else 2 * x)"

lemma sift_down_step:
  "sift_down key a t i x =
     (if 0 < x \<and> 2 * x < i then
        (if key t \<ge> key (a ! (big_child key a i x - 1)) then (a, x)
         else sift_down key (a[x - 1 := a ! (big_child key a i x - 1)]) t i (big_child key a i x))
      else (a, x))"
  by (subst sift_down.simps) (simp add: Let_def big_child_def)

lemma big_child_facts:
  assumes "0 < x" "2 * x < i"
  shows "big_child key a i x < i" "x < big_child key a i x" "big_child key a i x div 2 = x"
    "2 \<le> big_child key a i x"
  using assms by (auto simp: big_child_def)

lemma big_child_max:
  assumes "0 < x" "2 * x < i" "k < i" "k div 2 = x"
  shows "key (a ! (k - 1)) \<le> key (a ! (big_child key a i x - 1))"
proof -
  from assms(4) have "k = 2 * x \<or> k = 2 * x + 1" by auto
  then show ?thesis
  proof
    assume "k = 2 * x"
    then show ?thesis by (auto simp: big_child_def)
  next
    assume "k = 2 * x + 1"
    then show ?thesis using assms(3) by (auto simp: big_child_def)
  qed
qed

lemma sift_down_props:
  assumes "sift_down key a t i x = (a2, x2)" "1 \<le> x" "x < i" "i \<le> Suc (length a)"
  shows "length a2 = length a \<and> 1 \<le> x2 \<and> x2 < i \<and> mset (a2[x2 - 1 := t]) = mset (a[x - 1 := t])
     \<and> (\<forall>k\<ge>i. a2 ! (k - 1) = a ! (k - 1))"
  using assms
proof (induction "i - x" arbitrary: a x rule: less_induct)
  case less
  show ?case
  proof (cases "2 * x < i \<and> \<not> key t \<ge> key (a ! (big_child key a i x - 1))")
    case False
    then have "sift_down key a t i x = (a, x)" by (subst sift_down_step) auto
    with less.prems show ?thesis by simp
  next
    case True
    let ?y = "big_child key a i x"
    let ?a = "a[x - 1 := a ! (?y - 1)]"
    note bc = big_child_facts[of x i key a]
    from True less.prems(2) have "sift_down key a t i x = sift_down key ?a t i ?y"
      by (subst sift_down_step) auto
    with less.prems(1) have r: "sift_down key ?a t i ?y = (a2, x2)" by simp
    have x0: "0 < x" "2 * x < i" using True less.prems by auto
    note bc = bc[OF x0]
    have m: "i - ?y < i - x" using bc by simp
    have y1: "1 \<le> ?y" using bc by simp
    have il: "i \<le> Suc (length ?a)" using less.prems by simp
    have "length a2 = length ?a \<and> 1 \<le> x2 \<and> x2 < i \<and> mset (a2[x2 - 1 := t]) = mset (?a[?y - 1 := t])
     \<and> (\<forall>k\<ge>i. a2 ! (k - 1) = ?a ! (k - 1))"
      by (rule less.hyps[OF m r y1 bc(1) il])
    moreover have "mset (?a[?y - 1 := t]) = mset (a[x - 1 := t])"
    proof -
      let ?b = "a[x - 1 := t]"
      have xy: "x - 1 < length a" "?y - 1 < length a" "x - 1 \<noteq> ?y - 1"
        using less.prems bc by auto
      have "?a[?y - 1 := t] = ?b[?y - 1 := ?b ! (x - 1), x - 1 := ?b ! (?y - 1)]"
        using xy by (simp add: list_eq_iff_nth_eq nth_list_update)
      also have "mset \<dots> = mset ?b"
        using xy by (intro mset_swap) auto
      finally show ?thesis .
    qed
    moreover have "\<forall>k\<ge>i. ?a ! (k - 1) = a ! (k - 1)"
      using less.prems(2,3) by auto
    ultimately show ?thesis by simp
  qed
qed

lemma sift_down_heap:
  assumes "sift_down key a t i x = (a2, x2)" "hole_inv key a t i x" "i \<le> Suc (length a)"
  shows "heap_upto key (a2[x2 - 1 := t]) (i - 1)"
  using assms
proof (induction "i - x" arbitrary: a x rule: less_induct)
  case less
  from less.prems(2) have x1: "1 \<le> x" "x < i"
    and I1: "\<And>k. 2 \<le> k \<Longrightarrow> k < i \<Longrightarrow> k \<noteq> x \<Longrightarrow> k div 2 \<noteq> x \<Longrightarrow>
           key (a ! (k - 1)) \<le> key (a ! (k div 2 - 1))"
    and I2: "\<And>k. 2 \<le> x \<Longrightarrow> k < i \<Longrightarrow> k div 2 = x \<Longrightarrow>
           key (a ! (k - 1)) \<le> key (a ! (x div 2 - 1))"
    and I3: "2 \<le> x \<Longrightarrow> key t \<le> key (a ! (x div 2 - 1))"
    by (auto simp: hole_inv_def)
  have xl: "x - 1 < length a" using x1 less.prems(3) by simp
  let ?y = "big_child key a i x"
  show ?case
  proof (cases "2 * x < i \<and> \<not> key t \<ge> key (a ! (?y - 1))")
    case False
    then have "sift_down key a t i x = (a, x)" by (subst sift_down_step) auto
    with less.prems have e: "a2 = a" "x2 = x" by auto
    have F: "\<And>k. 1 \<le> k \<Longrightarrow> a[x - 1 := t] ! (k - 1) = (if k = x then t else a ! (k - 1))"
      using xl x1 by (auto simp: nth_list_update)
    show ?thesis unfolding e heap_upto_def
    proof (intro allI impI)
      fix k assume k: "2 \<le> k \<and> k \<le> i - 1"
      then have k1: "1 \<le> k" "1 \<le> k div 2" "k div 2 \<noteq> k" "k < i" by auto
      show "key (a[x - 1 := t] ! (k - 1)) \<le> key (a[x - 1 := t] ! (k div 2 - 1))"
      proof (cases "k = x")
        case True
        then show ?thesis using I3 k k1 F[OF k1(1)] F[OF k1(2)] by auto
      next
        case kx: False
        show ?thesis
        proof (cases "k div 2 = x")
          case True
          with k1 have "2 * x < i" by auto
          with False have "key (a ! (?y - 1)) \<le> key t" by auto
          moreover have "key (a ! (k - 1)) \<le> key (a ! (?y - 1))"
            using x1 \<open>2 * x < i\<close> k1(4) True by (intro big_child_max) auto
          ultimately have "key (a ! (k - 1)) \<le> key t" by auto
          then show ?thesis using True kx F[OF k1(1)] F[OF k1(2)] by auto
        next
          case False
          with kx k k1 I1[of k] show ?thesis using F[OF k1(1)] F[OF k1(2)] by auto
        qed
      qed
    qed
  next
    case True
    let ?a = "a[x - 1 := a ! (?y - 1)]"
    have x0: "0 < x" "2 * x < i" using True x1 by auto
    note bc = big_child_facts[OF x0, of key a]
    from True x1 have "sift_down key a t i x = sift_down key ?a t i ?y"
      by (subst sift_down_step) auto
    with less.prems(1) have r: "sift_down key ?a t i ?y = (a2, x2)" by simp
    have m: "i - ?y < i - x" using bc by simp
    have il: "i \<le> Suc (length ?a)" using less.prems by simp
    have F: "\<And>k. 1 \<le> k \<Longrightarrow> ?a ! (k - 1) = (if k = x then a ! (?y - 1) else a ! (k - 1))"
      using xl x1 by (auto simp: nth_list_update)
    have "hole_inv key ?a t i ?y"
      unfolding hole_inv_def
    proof (intro conjI allI impI)
      show "1 \<le> ?y" "?y < i" using bc by auto
    next
      fix k assume k: "2 \<le> k \<and> k < i \<and> k \<noteq> ?y \<and> k div 2 \<noteq> ?y"
      then have k1: "1 \<le> k" "1 \<le> k div 2" "k div 2 \<noteq> k" "k < i" by auto
      show "key (?a ! (k - 1)) \<le> key (?a ! (k div 2 - 1))"
      proof (cases "k = x")
        case True
        with k have "2 \<le> x" by simp
        from I2[OF this bc(1) bc(3)] show ?thesis
          using True k1 F[OF k1(1)] F[OF k1(2)] by auto
      next
        case kx: False
        show ?thesis
        proof (cases "k div 2 = x")
          case True
          have "key (a ! (k - 1)) \<le> key (a ! (?y - 1))"
            using x0 k1(4) True by (intro big_child_max) auto
          then show ?thesis using True kx F[OF k1(1)] F[OF k1(2)] by auto
        next
          case False
          with kx k I1[of k] show ?thesis using F[OF k1(1)] F[OF k1(2)] by auto
        qed
      qed
    next
      fix k assume "2 \<le> ?y" and k: "k < i \<and> k div 2 = ?y"
      then have k1: "1 \<le> k" "k \<noteq> x" "2 \<le> k" "k div 2 \<noteq> x" "1 \<le> ?y div 2" using bc by auto
      from I1[of k] k k1 have "key (a ! (k - 1)) \<le> key (a ! (?y - 1))" by auto
      then show "key (?a ! (k - 1)) \<le> key (?a ! (?y div 2 - 1))"
        using k1 bc(3) F[OF k1(1)] F[OF k1(5)] by auto
    next
      assume "2 \<le> ?y"
      then have "1 \<le> ?y div 2" by auto
      from F[OF this] True show "key t \<le> key (?a ! (?y div 2 - 1))"
        using bc(3) by auto
    qed
    from less.hyps[OF m r this il] show ?thesis .
  qed
qed

definition sort_inv :: "('a \<Rightarrow> 'k::linorder) \<Rightarrow> 'a list \<Rightarrow> nat \<Rightarrow> bool" where
  "sort_inv key a i =
     (heap_upto key a i \<and>
      (\<forall>k l. i < k \<and> k \<le> l \<and> l \<le> length a \<longrightarrow> key (a ! (k - 1)) \<le> key (a ! (l - 1))) \<and>
      (\<forall>k l. 1 \<le> k \<and> k \<le> i \<and> i < l \<and> l \<le> length a \<longrightarrow> key (a ! (k - 1)) \<le> key (a ! (l - 1))))"

lemma heap_root_max:
  "heap_upto key a m \<Longrightarrow> 1 \<le> k \<Longrightarrow> k \<le> m \<Longrightarrow> key (a ! (k - 1)) \<le> key (a ! 0)"
proof (induction k rule: less_induct)
  case (less k)
  show ?case
  proof (cases "k = 1")
    case True
    then show ?thesis by simp
  next
    case False
    with less.prems have k: "2 \<le> k" "k div 2 < k" "1 \<le> k div 2" "k div 2 \<le> m" by auto
    from less.prems(1) k(1) less.prems(3)
    have "key (a ! (k - 1)) \<le> key (a ! (k div 2 - 1))" by (simp add: heap_upto_def)
    also have "\<dots> \<le> key (a ! 0)" using less.IH[OF k(2) less.prems(1) k(3,4)] .
    finally show ?thesis .
  qed
qed

lemma delete_max_inv:
  assumes inv: "sort_inv key a i" and i: "2 \<le> i" "i \<le> length a"
  shows "sort_inv key (delete_max key a i) (i - 1) \<and> mset (delete_max key a i) = mset a
     \<and> length (delete_max key a i) = length a"
proof -
  let ?t = "a ! (i - 1)" and ?a1 = "a[i - 1 := a ! 0]"
  obtain a2 x2 where sd: "sift_down key ?a1 ?t i 1 = (a2, x2)" by (cases "sift_down key ?a1 ?t i 1")
  let ?a' = "a2[x2 - 1 := ?t]"
  have dm: "delete_max key a i = ?a'" unfolding delete_max_def Let_def sd by simp
  from inv have hp: "heap_upto key a i"
    and B: "\<And>k l. i < k \<Longrightarrow> k \<le> l \<Longrightarrow> l \<le> length a \<Longrightarrow> key (a ! (k - 1)) \<le> key (a ! (l - 1))"
    and C: "\<And>k l. 1 \<le> k \<Longrightarrow> k \<le> i \<Longrightarrow> i < l \<Longrightarrow> l \<le> length a \<Longrightarrow>
         key (a ! (k - 1)) \<le> key (a ! (l - 1))"
    by (auto simp: sort_inv_def)
  have il: "i \<le> Suc (length ?a1)" using i by simp
  from sift_down_props[OF sd _ _ il] i
  have l2: "length a2 = length a" and x2: "1 \<le> x2" "x2 < i"
    and ms: "mset ?a' = mset (?a1[1 - 1 := ?t])"
    and fr: "\<And>k. i \<le> k \<Longrightarrow> a2 ! (k - 1) = ?a1 ! (k - 1)"
    by auto
  have hi: "hole_inv key ?a1 ?t i 1"
    unfolding hole_inv_def
  proof (intro conjI allI impI)
    fix k assume k: "2 \<le> k \<and> k < i \<and> k \<noteq> 1 \<and> k div 2 \<noteq> 1"
    then have "?a1 ! (k - 1) = a ! (k - 1)" "?a1 ! (k div 2 - 1) = a ! (k div 2 - 1)" by auto
    moreover from hp k have "key (a ! (k - 1)) \<le> key (a ! (k div 2 - 1))"
      by (simp add: heap_upto_def)
    ultimately show "key (?a1 ! (k - 1)) \<le> key (?a1 ! (k div 2 - 1))" by simp
  qed (use i in auto)
  have hp': "heap_upto key ?a' (i - 1)" using sd hi il by (rule sift_down_heap)
  have msa: "mset ?a' = mset a"
  proof -
    have "?a1[1 - 1 := ?t] = a[i - 1 := a ! 0, 0 := a ! (i - 1)]" by simp
    also have "mset \<dots> = mset a" using i by (intro mset_swap) auto
    finally show ?thesis using ms by simp
  qed
  have la: "length ?a' = length a" using l2 by simp
  have fr': "?a' ! (k - 1) = (if k = i then a ! 0 else a ! (k - 1))" if "i \<le> k" "k \<le> length a" for k
  proof -
    have "x2 - 1 \<noteq> k - 1" using x2 that by auto
    then have "?a' ! (k - 1) = a2 ! (k - 1)" by simp
    also have "\<dots> = ?a1 ! (k - 1)" using that by (intro fr)
    also have "\<dots> = (if k = i then a ! 0 else a ! (k - 1))" using that i by (auto simp: nth_list_update)
    finally show ?thesis .
  qed
  have pre: "\<exists>j. 1 \<le> j \<and> j \<le> i \<and> ?a' ! (k - 1) = a ! (j - 1)" if k: "1 \<le> k" "k \<le> i - 1" for k
  proof -
    have d1: "?a' = take (i - 1) ?a' @ ?a' ! (i - 1) # drop i ?a'"
      using i la id_take_nth_drop[of "i - 1" ?a'] by simp
    have dr: "drop i ?a' = drop i a"
    proof (rule nth_equalityI)
      show "length (drop i ?a') = length (drop i a)" using la by simp
    next
      fix j assume "j < length (drop i ?a')"
      then have j: "i + j < length a" using la by simp
      have "?a' ! (Suc (i + j) - 1) = a ! (Suc (i + j) - 1)"
        using fr'[of "Suc (i + j)"] j by simp
      then show "drop i ?a' ! j = drop i a ! j" using j la by simp
    qed
    have d2: "a = take i a @ drop i a" by simp
    have ai: "?a' ! (i - 1) = a ! 0" using fr'[of i] i by simp
    have "mset ?a' = mset (take (i - 1) ?a' @ ?a' ! (i - 1) # drop i ?a')"
      using arg_cong[OF d1, of mset] .
    also have "\<dots> = mset (take (i - 1) ?a') + {#a ! 0#} + mset (drop i a)"
      unfolding ai dr by simp
    finally have e1: "mset ?a' = mset (take (i - 1) ?a') + {#a ! 0#} + mset (drop i a)" .
    have "mset a = mset (take i a @ drop i a)" by simp
    also have "\<dots> = mset (take i a) + mset (drop i a)" by (simp only: mset_append)
    finally have e2: "mset a = mset (take i a) + mset (drop i a)" .
    from e1 e2 msa have "mset (take (i - 1) ?a') + {#a ! 0#} = mset (take i a)" by simp
    then have "set (take (i - 1) ?a') \<subseteq> set (take i a)"
      by (metis mset_subset_eq_add_left set_mset_mono set_mset_mset)
    moreover have "?a' ! (k - 1) \<in> set (take (i - 1) ?a')"
      using k la i by (auto simp: in_set_conv_nth intro!: exI[of _ "k - 1"])
    ultimately have "?a' ! (k - 1) \<in> set (take i a)" by blast
    then obtain j where "j < i" "j < length a" "a ! j = ?a' ! (k - 1)"
      using i by (auto simp: in_set_conv_nth)
    then show ?thesis by (intro exI[of _ "Suc j"]) auto
  qed
  have B': "key (?a' ! (k - 1)) \<le> key (?a' ! (l - 1))" if "i - 1 < k" "k \<le> l" "l \<le> length ?a'" for k l
  proof -
    from that la have kl: "i \<le> k" "k \<le> length a" "i \<le> l" "l \<le> length a" by auto
    show ?thesis
    proof (cases "k = i")
      case True
      show ?thesis
      proof (cases "l = i")
        case True
        with \<open>k = i\<close> show ?thesis by simp
      next
        case False
        with kl have "i < l" by simp
        from C[of 1 l] this kl i have "key (a ! 0) \<le> key (a ! (l - 1))" by simp
        then show ?thesis using True False fr'[OF kl(1,2)] fr'[OF kl(3,4)] by simp
      qed
    next
      case False
      with kl that have "i < k" "l \<noteq> i" by auto
      with B[of k l] that kl show ?thesis using fr'[OF kl(1,2)] fr'[OF kl(3,4)] False by simp
    qed
  qed
  have C': "key (?a' ! (k - 1)) \<le> key (?a' ! (l - 1))" if "1 \<le> k" "k \<le> i - 1" "i - 1 < l" "l \<le> length ?a'" for k l
  proof -
    from that la have kl: "i \<le> l" "l \<le> length a" by auto
    from pre[OF that(1,2)] obtain j where j: "1 \<le> j" "j \<le> i" "?a' ! (k - 1) = a ! (j - 1)" by blast
    show ?thesis
    proof (cases "l = i")
      case True
      from heap_root_max[OF hp j(1,2)] show ?thesis using True fr'[OF kl] j(3) by simp
    next
      case False
      with kl have "i < l" by simp
      from C[OF j(1,2) this kl(2)] show ?thesis using False fr'[OF kl] j(3) by simp
    qed
  qed
  show ?thesis unfolding dm sort_inv_def using hp' B' C' msa la by blast
qed

lemma delete_all_inv:
  "sort_inv key b m \<Longrightarrow> m \<le> length b \<Longrightarrow>
     sort_inv key (foldl (delete_max key) b (rev [2..<Suc m])) (min m 1)
     \<and> mset (foldl (delete_max key) b (rev [2..<Suc m])) = mset b
     \<and> length (foldl (delete_max key) b (rev [2..<Suc m])) = length b"
proof (induction m arbitrary: b)
  case 0
  then show ?case by simp
next
  case (Suc m)
  show ?case
  proof (cases "m = 0")
    case True
    with Suc.prems show ?thesis by simp
  next
    case False
    then have r: "rev [2..<Suc (Suc m)] = Suc m # rev [2..<Suc m]" by simp
    let ?b = "delete_max key b (Suc m)"
    from delete_max_inv[OF Suc.prems(1)] False Suc.prems(2)
    have d: "sort_inv key ?b m" "mset ?b = mset b" "length ?b = length b" by auto
    have ml: "m \<le> length ?b" using d(3) Suc.prems(2) by simp
    have mm: "min m 1 = min (Suc m) 1" using False by simp
    from Suc.IH[OF d(1) ml] show ?thesis unfolding r foldl_Cons mm d(2,3) .
  qed
qed

lemma heapsort_key_sorts:
  "sorted (map key (heapsort_key key a)) \<and> mset (heapsort_key key a) = mset a"
proof -
  let ?n = "length a"
  let ?b = "foldl (sift_up key) a [2..<Suc ?n]"
  let ?c = "heapsort_key key a"
  have "heap_upto key ?b ?n" by (rule build_heap) simp
  then have "sort_inv key ?b ?n" by (simp add: sort_inv_def)
  from delete_all_inv[OF this] have c: "sort_inv key ?c (min ?n 1)" "mset ?c = mset ?b" "length ?c = ?n"
    by (simp_all add: heapsort_key_def)
  have mb: "mset ?b = mset a" by (rule build_heap_mset) auto
  have "key (?c ! i) \<le> key (?c ! j)" if "i \<le> j" "j < ?n" for i j
  proof (cases "i = j")
    case True
    then show ?thesis by simp
  next
    case False
    with that have ij: "i < j" by simp
    show ?thesis
    proof (cases "i = 0")
      case True
      from c(1) have "\<And>k l. 1 \<le> k \<Longrightarrow> k \<le> min ?n 1 \<Longrightarrow> min ?n 1 < l \<Longrightarrow> l \<le> length ?c \<Longrightarrow>
         key (?c ! (k - 1)) \<le> key (?c ! (l - 1))" unfolding sort_inv_def by blast
      from this[of 1 "Suc j"] that ij c(3) True show ?thesis by simp
    next
      case False
      from c(1) have "\<And>k l. min ?n 1 < k \<Longrightarrow> k \<le> l \<Longrightarrow> l \<le> length ?c \<Longrightarrow>
         key (?c ! (k - 1)) \<le> key (?c ! (l - 1))" unfolding sort_inv_def by blast
      from this[of "Suc i" "Suc j"] that ij c(3) False show ?thesis by simp
    qed
  qed
  then have "sorted (map key ?c)" using c(3) by (simp add: sorted_iff_nth_mono)
  then show ?thesis using c(2) mb by simp
qed

lemma heapsort_key_length [simp]: "length (heapsort_key key a) = length a"
  using heapsort_key_sorts[of key a] by (metis size_mset)

section \<open>Graphs and the canonical labeler\<close>

text \<open>
  A graph of \<open>graph.c\<close>: its order, the edge buffer (an edge is the pair made by
  \<open>edge_make\<close>, smaller end first; the buffer may repeat an edge), the arrays \<open>lab\<close> and
  \<open>ptn\<close> of the vertex colouring, and what \<open>graph_getcan\<close> stores once it has run
  (\<open>have_can\<close>): the orbit array, the automorphism generators in the order of their arrival
  and the index sequence, which \<open>graph_getcan\<close> ends with a zero.
\<close>

record canon =
  orb :: "nat list"
  aut_gen :: "nat list list"
  aut_idx :: "int list"

record graph =
  order :: nat
  edgebuf :: "(nat \<times> nat) list"
  lab :: "nat list"
  ptn :: "nat list"
  can :: "canon option"

text \<open>
  The labeler itself (\<open>sparsenauty\<close>) is not part of the program. It is a parameter here: a
  function of what \<open>graph_getcan\<close> hands over (order, edges, \<open>lab\<close>, \<open>ptn\<close>) to what it leaves
  behind, the arrays \<open>lab\<close> (the canonical labeling) and \<open>ptn\<close>, the orbit array, what the
  two callbacks \<open>automproc\<close> and \<open>lvlproc\<close> have collected, and the canonical graph (\<open>ncg\<close>):
  \<open>out_can ! i\<close> lists the neighbours of its vertex \<open>i\<close>, the entries
  \<open>ce[cv[i]], ..., ce[cv[i] + cd[i] - 1]\<close>.
\<close>

record nauty_out =
  out_lab :: "nat list"
  out_ptn :: "nat list"
  out_orb :: "nat list"
  out_gen :: "nat list list"
  out_idx :: "int list"
  out_can :: "nat list list"

type_synonym nauty = "nat \<Rightarrow> (nat \<times> nat) list \<Rightarrow> nat list \<Rightarrow> nat list \<Rightarrow> nauty_out"

definition edge_make :: "nat \<Rightarrow> nat \<Rightarrow> nat \<times> nat" where
  "edge_make i j = (if i < j then (i, j) else (j, i))"

text \<open>\<open>graph_relabel\<close> with a permutation that has passed \<open>graph_permcheck\<close> (the identity of
  \<open>graph_dup\<close> always does); the copy has no canonical data.\<close>

definition graph_relabel :: "graph \<Rightarrow> nat list \<Rightarrow> graph" where
  "graph_relabel g p =
     \<lparr>order = order g,
      edgebuf = map (\<lambda>(i, j). edge_make (p ! i) (p ! j)) (edgebuf g),
      lab = map (\<lambda>i. p ! (lab g ! i)) [0..<order g],
      ptn = map (\<lambda>i. ptn g ! i) [0..<order g],
      can = None\<rparr>"

definition graph_dup :: "graph \<Rightarrow> graph" where
  "graph_dup g = graph_relabel g [0..<order g]"

definition graph_add_edge :: "graph \<Rightarrow> nat \<Rightarrow> nat \<Rightarrow> failure + graph" where
  "graph_add_edge g i j =
     (if i \<ge> order g \<or> j \<ge> order g \<or> i = j then Inl (ABORT ''bad edge'')
      else Inr (g\<lparr>edgebuf := edgebuf g @ [edge_make i j], can := None\<rparr>))"

definition graph_order :: "graph \<Rightarrow> nat" where
  "graph_order g = order g"

text \<open>\<open>graph_getcan\<close>: nothing to do when the canonical data are there; otherwise the
  labeler runs, overwrites \<open>lab\<close> and \<open>ptn\<close>, and its results are stored.

  After the labeler has run, \<open>graph_getcan\<close> collects the edges \<open>(i, j)\<close>, \<open>i < j\<close>, of the
  canonical graph from the sorted neighbour lists (\<open>can_edges\<close>) and aborts when they are not
  as many as the edges of the graph, or are not in strictly ascending order (the order of
  the numbers \<open>(i << 32) | j\<close>, \<open>edge_less\<close>). \<open>graph_getcan_abort\<close> is this part of
  \<open>graph_getcan\<close>: the abort of a call, if the call aborts; \<open>graph_getcan\<close> below is the graph
  that a call which returns leaves behind. (The test \<open>bad v array\<close> on the degree sums never
  fails.)\<close>

definition run_nauty :: "nauty \<Rightarrow> graph \<Rightarrow> nauty_out" where
  "run_nauty nty g = nty (order g) (edgebuf g) (lab g) (ptn g)"

definition edge_less :: "nat \<times> nat \<Rightarrow> nat \<times> nat \<Rightarrow> bool" where
  "edge_less e f = (fst e < fst f \<or> (fst e = fst f \<and> snd e < snd f))"

definition can_edges :: "nat \<Rightarrow> nat list list \<Rightarrow> (nat \<times> nat) list" where
  "can_edges n cg =
     concat (map (\<lambda>i. map (\<lambda>j. edge_make i j) (filter (\<lambda>j. i < j) (heapsort_int (cg ! i))))
               [0..<n])"

definition graph_getcan_abort :: "nauty \<Rightarrow> graph \<Rightarrow> failure option" where
  "graph_getcan_abort nty g =
     (case can g of
        Some c \<Rightarrow> None
      | None \<Rightarrow>
          (let cbuf = can_edges (order g) (out_can (run_nauty nty g)); m = length (edgebuf g)
           in if length cbuf \<noteq> m then Some (ABORT ''bad canonical form'')
              else if list_ex (\<lambda>l. \<not> edge_less (cbuf ! (l - 1)) (cbuf ! l)) [1..<m]
              then Some (ABORT ''bad sort in canonical form'')
              else None))"

definition graph_getcan :: "nauty \<Rightarrow> graph \<Rightarrow> graph" where
  "graph_getcan nty g =
     (case can g of
        Some c \<Rightarrow> g
      | None \<Rightarrow>
          (let r = run_nauty nty g
           in g\<lparr>lab := out_lab r, ptn := out_ptn r,
                can := Some \<lparr>orb = out_orb r, aut_gen = out_gen r, aut_idx = out_idx r @ [0]\<rparr>\<rparr>))"

text \<open>The canonical data a query sees: every query function starts with \<open>graph_getcan\<close>.
  The queries below give what a call returns; the routines that can fail
  (\<open>graph_same_orbit\<close>, \<open>traversal_prepare\<close> and the routines of the reducer) take the abort of
  \<open>graph_getcan\<close> from \<open>graph_getcan_abort\<close> at their first query of a graph.\<close>

definition canon_of :: "nauty \<Rightarrow> graph \<Rightarrow> canon" where
  "canon_of nty g = the (can (graph_getcan nty g))"

definition graph_can_lab :: "nauty \<Rightarrow> graph \<Rightarrow> nat list" where
  "graph_can_lab nty g = lab (graph_getcan nty g)"

definition graph_aut_idx :: "nauty \<Rightarrow> graph \<Rightarrow> int list" where
  "graph_aut_idx nty g = aut_idx (canon_of nty g)"

definition graph_orbits :: "nauty \<Rightarrow> graph \<Rightarrow> nat list" where
  "graph_orbits nty g = orb (canon_of nty g)"

text \<open>All the generators that a loop \<open>while((p = graph_aut_gen(g)) != NULL)\<close> runs through:
  the iteration starts at the first generator and resets itself at the end.\<close>

definition graph_aut_gens :: "nauty \<Rightarrow> graph \<Rightarrow> nat list list" where
  "graph_aut_gens nty g = aut_gen (canon_of nty g)"

definition graph_same_orbit :: "nauty \<Rightarrow> graph \<Rightarrow> nat \<Rightarrow> nat \<Rightarrow> failure + bool" where
  "graph_same_orbit nty g i j =
     (if i \<ge> order g \<or> j \<ge> order g then Inl (ABORT ''vertex number out of bounds'')
      else if i = j then Inr True
      else case graph_getcan_abort nty g of
             Some e \<Rightarrow> Inl e
           | None \<Rightarrow> Inr (graph_orbits nty g ! i = graph_orbits nty g ! j))"

section \<open>Orbit traversals\<close>

text \<open>
  \<open>traversal_prepare\<close>. The first loop lists the orbit of the root in the order of the
  vertex numbers: \<open>ind[i]\<close> is the position of \<open>i\<close> in \<open>list\<close>, or \<open>-(n+1)\<close> outside the orbit.
  The arrays grow by one entry per round, as the loop writes \<open>ind[i]\<close> for \<open>i = 0, 1, ...\<close> and
  \<open>list[len]\<close> for \<open>len = 0, 1, ...\<close>.
\<close>

definition in_orbit :: "nauty \<Rightarrow> graph \<Rightarrow> nat \<Rightarrow> nat \<Rightarrow> bool" where
  "in_orbit nty g root i = (graph_same_orbit nty g i root = Inr True)"

definition trav_mark ::
  "nauty \<Rightarrow> graph \<Rightarrow> nat \<Rightarrow> int list \<times> nat list \<times> int \<Rightarrow> nat \<Rightarrow> int list \<times> nat list \<times> int" where
  "trav_mark nty g root s i =
     (case s of (ind, list, rootpos) \<Rightarrow>
        if in_orbit nty g root i
        then (ind @ [int (length list)], list @ [i],
              if i = root then int (length list) else rootpos)
        else (ind @ [- (int (graph_order g) + 1)], list, rootpos))"

text \<open>One visit of the position \<open>j\<close> under the generator \<open>p\<close>: when \<open>list[j]\<close> is done and its
  image \<open>v\<close> is not, row \<open>ind[v]\<close> becomes \<open>p\<close> after row \<open>j\<close> and \<open>v\<close> is done.\<close>

definition trav_visit ::
  "nat list \<Rightarrow> nat list \<Rightarrow> int list \<times> nat list list \<Rightarrow> nat \<Rightarrow> int list \<times> nat list list" where
  "trav_visit list p s j =
     (case s of (ind, t) \<Rightarrow>
        let u = list ! j; v = p ! u; q = ind ! v
        in if q \<ge> 0 \<and> ind ! u < 0
           then (ind[v := - 1], t[nat q := map (\<lambda>x. p ! x) (t ! j)])
           else (ind, t))"

definition trav_sweep ::
  "nat list list \<Rightarrow> nat list \<Rightarrow> int list \<times> nat list list \<Rightarrow> int list \<times> nat list list" where
  "trav_sweep gens list s = foldl (\<lambda>s p. foldl (trav_visit list p) s [0..<length list]) s gens"

definition trav_done :: "nat list \<Rightarrow> int list \<Rightarrow> bool" where
  "trav_done list ind = list_all (\<lambda>u. ind ! u < 0) list"

text \<open>The loop \<open>while(1)\<close>: it ends when every listed vertex is done, and sweeps over all
  generators otherwise. Nothing bounds the number of rounds, so the loop is a partial
  function: \<open>None\<close> is the run that never ends.\<close>

partial_function (option) trav_loop ::
  "nat list list \<Rightarrow> nat list \<Rightarrow> int list \<times> nat list list \<Rightarrow> (int list \<times> nat list list) option" where
  "trav_loop gens list s =
     (if trav_done list (fst s) then Some s
      else trav_loop gens list (trav_sweep gens list s))"

text \<open>The rows of the fresh matrix \<open>t\<close> hold zeros here; the program reads a row only after
  it has written it. A call \<open>graph_same_orbit(g, i, root)\<close> of the first loop that aborts ends
  the program: \<open>first_failure\<close> is the abort of the first such call.\<close>

fun first_failure :: "(failure + 'a) list \<Rightarrow> failure option" where
  "first_failure [] = None"
| "first_failure (Inl e # rs) = Some e"
| "first_failure (Inr x # rs) = first_failure rs"

definition traversal_prepare ::
  "nauty \<Rightarrow> nat \<Rightarrow> graph \<Rightarrow> (failure + nat \<times> nat list list) option" where
  "traversal_prepare nty root g =
     (let n = graph_order g in
      if root \<ge> n then Some (Inl (ABORT ''bad root''))
      else
        (case first_failure (map (\<lambda>i. graph_same_orbit nty g i root) [0..<n]) of
           Some e \<Rightarrow> Some (Inl e)
         | None \<Rightarrow>
        (case foldl (trav_mark nty g root) ([], [], - 1) [0..<n] of
           (ind0, list, rootpos) \<Rightarrow>
             (let len = length list;
                  t0 = replicate len (replicate n 0);
                  ind1 = ind0[root := - 1];
                  t1 = t0[nat rootpos := [0..<n]]
              in case trav_loop (graph_aut_gens nty g) list (ind1, t1) of
                   None \<Rightarrow> None
                 | Some (ind, t) \<Rightarrow>
                     if list_ex (\<lambda>j. t ! j ! root \<noteq> list ! j) [0..<len]
                     then Some (Inl (ABORT ''bad traversal''))
                     else Some (Inr (len, t))))))"

text \<open>The vocabulary of the claims about traversals: a permutation of \<open>{0..n-1}\<close> as an
  array, the products of the generators, and the vertices that the generators reach from
  the root.\<close>

definition is_perm :: "nat \<Rightarrow> nat list \<Rightarrow> bool" where
  "is_perm n p = (length p = n \<and> distinct p \<and> list_all (\<lambda>x. x < n) p)"

inductive_set gen_products :: "nat \<Rightarrow> nat list list \<Rightarrow> nat list set"
  for n :: nat and gens :: "nat list list" where
  gp_id: "[0..<n] \<in> gen_products n gens"
| gp_step: "\<tau> \<in> gen_products n gens \<Longrightarrow> p \<in> set gens \<Longrightarrow>
     map (\<lambda>x. p ! x) \<tau> \<in> gen_products n gens"

inductive_set gen_reach :: "nat list list \<Rightarrow> nat \<Rightarrow> nat set"
  for gens :: "nat list list" and root :: nat where
  gr_root: "root \<in> gen_reach gens root"
| gr_step: "u \<in> gen_reach gens root \<Longrightarrow> p \<in> set gens \<Longrightarrow> p ! u \<in> gen_reach gens root"

text \<open>The orbit of the root as the labeler's orbit array gives it, in ascending order.\<close>

definition orbit_list :: "nauty \<Rightarrow> graph \<Rightarrow> nat \<Rightarrow> nat list" where
  "orbit_list nty g root = filter (in_orbit nty g root) [0..<graph_order g]"

text \<open>The orbit of the root as a set: the vertices with the root's entry in the orbit array
  of the labeler.\<close>

definition orbit_of :: "nauty \<Rightarrow> graph \<Rightarrow> nat \<Rightarrow> nat set" where
  "orbit_of nty g root =
     {v. v < graph_order g \<and> graph_orbits nty g ! v = graph_orbits nty g ! root}"

declare trav_loop.simps [code]

subsection \<open>The invariant of the sweep\<close>

text \<open>
  Well-formed generators are arrays of \<open>n\<close> vertex numbers. The invariant of the loop: a
  listed vertex is either not done, and \<open>ind\<close> holds its position, or done, and its row is a
  product of generators that carries the root to it; \<open>ind\<close> is negative outside the list;
  and the row of the root is the identity.
\<close>


definition wf_gens :: "nat \<Rightarrow> nat list list \<Rightarrow> bool" where
  "wf_gens n gens = list_all (\<lambda>p. length p = n \<and> list_all (\<lambda>x. x < n) p) gens"

definition trav_row_ok :: "nat \<Rightarrow> nat list list \<Rightarrow> nat \<Rightarrow> nat list \<Rightarrow> nat list list \<Rightarrow> nat \<Rightarrow> bool" where
  "trav_row_ok n gens root list t j =
     (length (t ! j) = n \<and> t ! j \<in> gen_products n gens \<and> t ! j ! root = list ! j)"

definition trav_inv ::
  "nat \<Rightarrow> nat list list \<Rightarrow> nat \<Rightarrow> nat list \<Rightarrow> int list \<times> nat list list \<Rightarrow> bool" where
  "trav_inv n gens root list s =
     (case s of (ind, t) \<Rightarrow>
        length ind = n \<and> length t = length list \<and>
        (\<forall>j<length list. ind ! (list ! j) = int j
             \<or> (ind ! (list ! j) = - 1 \<and> trav_row_ok n gens root list t j)) \<and>
        (\<forall>v<n. v \<notin> set list \<longrightarrow> ind ! v < 0) \<and>
        (\<forall>j<length list. list ! j = root \<longrightarrow> ind ! root = - 1 \<and> t ! j = [0..<n]))"

lemma trav_visit_inv:
  assumes inv: "trav_inv n gens root list s"
    and d: "distinct list" and sub: "set list \<subseteq> {..<n}" and r: "root < n"
    and p: "p \<in> set gens" and wf: "wf_gens n gens" and j: "j < length list"
  shows "trav_inv n gens root list (trav_visit list p s j)"
proof -
  obtain ind t where s: "s = (ind, t)" by (cases s)
  let ?u = "list ! j" let ?v = "p ! ?u" let ?q = "ind ! ?v"
  from inv s have len: "length ind = n" "length t = length list"
    and rows: "\<And>j. j < length list \<Longrightarrow> ind ! (list ! j) = int j
             \<or> (ind ! (list ! j) = - 1 \<and> trav_row_ok n gens root list t j)"
    and out: "\<And>v. v < n \<Longrightarrow> v \<notin> set list \<Longrightarrow> ind ! v < 0"
    and rt: "\<And>j. j < length list \<Longrightarrow> list ! j = root \<Longrightarrow> ind ! root = - 1 \<and> t ! j = [0..<n]"
    by (auto simp: trav_inv_def)
  from sub j have un: "?u < n" by (auto dest: nth_mem)
  from wf p have pl: "length p = n" and pr: "\<And>x. x < n \<Longrightarrow> p ! x < n"
    by (auto simp: wf_gens_def list_all_iff)
  have vn: "?v < n" using pr un by simp
  show ?thesis
  proof (cases "?q \<ge> 0 \<and> ind ! ?u < 0")
    case False
    then show ?thesis using inv s by (auto simp: trav_visit_def Let_def)
  next
    case True
    then have q0: "?q \<ge> 0" and ud: "ind ! ?u < 0" by auto
    from out[OF vn] q0 have vin: "?v \<in> set list" by force
    then obtain k where k: "k < length list" "list ! k = ?v" by (auto simp: in_set_conv_nth)
    from rows[OF k(1)] k(2) q0 have qk: "?q = int k" by auto
    from rows[OF j] ud have rowj: "trav_row_ok n gens root list t j" by auto
    have new: "trav_visit list p s j = (ind[?v := - 1], t[k := map (\<lambda>x. p ! x) (t ! j)])"
      using True qk s by (simp add: trav_visit_def Let_def)
    have rowk: "trav_row_ok n gens root list (t[k := map (\<lambda>x. p ! x) (t ! j)]) k"
      using rowj k len r p by (auto simp: trav_row_ok_def intro: gen_products.gp_step)
    have other: "\<And>i. i < length list \<Longrightarrow> i \<noteq> k \<Longrightarrow>
        trav_row_ok n gens root list (t[k := map (\<lambda>x. p ! x) (t ! j)]) i
          = trav_row_ok n gens root list t i"
      by (simp add: trav_row_ok_def)
    have neq: "\<And>i. i < length list \<Longrightarrow> i \<noteq> k \<Longrightarrow> list ! i \<noteq> ?v"
      using d k by (metis nth_eq_iff_index_eq)
    have A: "\<forall>i<length list. ind[?v := - 1] ! (list ! i) = int i \<or>
            ind[?v := - 1] ! (list ! i) = - 1 \<and>
            trav_row_ok n gens root list (t[k := map (\<lambda>x. p ! x) (t ! j)]) i"
    proof (intro allI impI)
      fix i assume i: "i < length list"
      show "ind[?v := - 1] ! (list ! i) = int i \<or>
            ind[?v := - 1] ! (list ! i) = - 1 \<and>
            trav_row_ok n gens root list (t[k := map (\<lambda>x. p ! x) (t ! j)]) i"
      proof (cases "i = k")
        case True
        then show ?thesis using rowk k vn len by simp
      next
        case False
        then show ?thesis using rows[OF i] neq[OF i False] other[OF i False] by simp
      qed
    qed
    have B: "\<forall>v<n. v \<notin> set list \<longrightarrow> ind[?v := - 1] ! v < 0"
    proof (intro allI impI)
      fix v assume "v < n" "v \<notin> set list"
      then show "ind[?v := - 1] ! v < 0" using out[of v] vin by (cases "v = ?v") auto
    qed
    have C: "\<forall>i<length list. list ! i = root \<longrightarrow>
        ind[?v := - 1] ! root = - 1 \<and> t[k := map (\<lambda>x. p ! x) (t ! j)] ! i = [0..<n]"
    proof (intro allI impI)
      fix i assume i: "i < length list" "list ! i = root"
      with rt[OF i(1)] have e: "ind ! root = - 1" "t ! i = [0..<n]" by auto
      from e qk k i have "i \<noteq> k" by auto
      with e show "ind[?v := - 1] ! root = - 1 \<and> t[k := map (\<lambda>x. p ! x) (t ! j)] ! i = [0..<n]"
        by (cases "root = ?v") (auto simp: vn len)
    qed
    show ?thesis unfolding new trav_inv_def using A B C len by simp
  qed
qed

lemma trav_visits_inv:
  assumes "trav_inv n gens root list s" "distinct list" "set list \<subseteq> {..<n}" "root < n"
    "p \<in> set gens" "wf_gens n gens" "\<forall>j\<in>set js. j < length list"
  shows "trav_inv n gens root list (foldl (trav_visit list p) s js)"
  using assms
proof (induction js arbitrary: s)
  case Nil
  then show ?case by simp
next
  case (Cons j js)
  then show ?case by (simp add: trav_visit_inv)
qed

lemma trav_gens_inv:
  assumes "trav_inv n gens root list s" "distinct list" "set list \<subseteq> {..<n}" "root < n"
    "set ps \<subseteq> set gens" "wf_gens n gens"
  shows "trav_inv n gens root list
           (foldl (\<lambda>s p. foldl (trav_visit list p) s [0..<length list]) s ps)"
  using assms
proof (induction ps arbitrary: s)
  case Nil
  then show ?case by simp
next
  case (Cons p ps)
  then show ?case by (simp add: trav_visits_inv)
qed

lemma trav_sweep_inv:
  assumes "trav_inv n gens root list s" "distinct list" "set list \<subseteq> {..<n}" "root < n"
    "wf_gens n gens"
  shows "trav_inv n gens root list (trav_sweep gens list s)"
  unfolding trav_sweep_def using assms by (intro trav_gens_inv) auto

lemma trav_loop_inv_aux:
  assumes "trav_loop gens list s = Some s'"
  shows "trav_inv n gens root list s \<longrightarrow> distinct list \<longrightarrow> set list \<subseteq> {..<n} \<longrightarrow> root < n \<longrightarrow>
    wf_gens n gens \<longrightarrow> trav_inv n gens root list s' \<and> trav_done list (fst s')"
proof (rule trav_loop.raw_induct[OF _ assms])
  fix loop :: "nat list list \<Rightarrow> nat list \<Rightarrow> int list \<times> nat list list
      \<Rightarrow> (int list \<times> nat list list) option"
  fix gens list s s'
  assume IH: "\<And>gens list s s'. loop gens list s = Some s' \<Longrightarrow>
     trav_inv n gens root list s \<longrightarrow> distinct list \<longrightarrow> set list \<subseteq> {..<n} \<longrightarrow> root < n \<longrightarrow>
     wf_gens n gens \<longrightarrow> trav_inv n gens root list s' \<and> trav_done list (fst s')"
  assume step: "(if trav_done list (fst s) then Some s
       else loop gens list (trav_sweep gens list s)) = Some s'"
  show "trav_inv n gens root list s \<longrightarrow> distinct list \<longrightarrow> set list \<subseteq> {..<n} \<longrightarrow> root < n \<longrightarrow>
     wf_gens n gens \<longrightarrow> trav_inv n gens root list s' \<and> trav_done list (fst s')"
  proof (cases "trav_done list (fst s)")
    case True
    with step show ?thesis by simp
  next
    case False
    with step have "loop gens list (trav_sweep gens list s) = Some s'" by simp
    from IH[OF this] show ?thesis by (simp add: trav_sweep_inv)
  qed
qed

lemma trav_loop_inv:
  assumes "trav_loop gens list s = Some s'"
    and "trav_inv n gens root list s" "distinct list" "set list \<subseteq> {..<n}" "root < n"
    "wf_gens n gens"
  shows "trav_inv n gens root list s'" "trav_done list (fst s')"
  using trav_loop_inv_aux[OF assms(1), of n root] assms(2-) by auto

lemma filter_less_upt: "x \<le> n \<Longrightarrow> filter (\<lambda>y. y < x) [0..<n] = [0..<x]"
  by (induction n) (auto simp: le_Suc_eq)

lemma filter_less_nth:
  "sorted_wrt (<) (xs :: nat list) \<Longrightarrow> j < length xs \<Longrightarrow> filter (\<lambda>y. y < xs ! j) xs = take j xs"
proof (induction xs arbitrary: j)
  case Nil
  then show ?case by simp
next
  case (Cons x xs)
  show ?case
  proof (cases j)
    case 0
    with Cons.prems show ?thesis by (auto simp: filter_empty_conv)
  next
    case (Suc k)
    with Cons.prems have "x < xs ! k" by auto
    with Cons Suc show ?thesis by auto
  qed
qed

lemma filter_upt_pos:
  assumes "j < length (filter P [0..<n])"
  shows "length (filter P [0..<filter P [0..<n] ! j]) = j"
proof -
  let ?xs = "filter P [0..<n]"
  have s: "sorted_wrt (<) ?xs" by (simp add: sorted_wrt_filter)
  have "?xs ! j \<in> set ?xs" using assms by (rule nth_mem)
  then have xn: "?xs ! j < n" by simp
  have "filter P [0..<?xs ! j] = filter P (filter (\<lambda>y. y < ?xs ! j) [0..<n])"
  proof -
    have "filter (\<lambda>y. y < ?xs ! j) [0..<n] = [0..<?xs ! j]"
      using xn by (simp add: filter_less_upt)
    then show ?thesis by simp
  qed
  also have "\<dots> = filter (\<lambda>y. y < ?xs ! j) ?xs" by (simp add: conj_commute)
  also have "\<dots> = take j ?xs" using s assms by (rule filter_less_nth)
  finally show ?thesis using assms by simp
qed

lemma trav_mark_foldl:
  "foldl (trav_mark nty g root) ([], [], - 1) [0..<m] =
     (map (\<lambda>i. if in_orbit nty g root i
                then int (length (filter (in_orbit nty g root) [0..<i]))
                else - (int (graph_order g) + 1)) [0..<m],
      filter (in_orbit nty g root) [0..<m],
      if root < m \<and> in_orbit nty g root root
      then int (length (filter (in_orbit nty g root) [0..<root])) else - 1)"
  by (induction m) (auto simp: trav_mark_def)

lemma in_orbit_root: "root < graph_order g \<Longrightarrow> in_orbit nty g root root"
  by (simp add: in_orbit_def graph_same_orbit_def graph_order_def)

definition orbit_pos :: "nauty \<Rightarrow> graph \<Rightarrow> nat \<Rightarrow> nat \<Rightarrow> nat" where
  "orbit_pos nty g root i = length (filter (in_orbit nty g root) [0..<i])"

definition trav_start :: "nauty \<Rightarrow> nat \<Rightarrow> graph \<Rightarrow> int list \<times> nat list list" where
  "trav_start nty root g =
     ((map (\<lambda>i. if in_orbit nty g root i then int (orbit_pos nty g root i)
                 else - (int (graph_order g) + 1)) [0..<graph_order g])[root := - 1],
      (replicate (length (orbit_list nty g root)) (replicate (graph_order g) 0))
        [orbit_pos nty g root root := [0..<graph_order g]])"

lemma first_failure_None:
  "first_failure rs = None \<longleftrightarrow> (\<forall>r\<in>set rs. \<exists>x. r = Inr x)"
  by (induction rs rule: first_failure.induct) auto

lemma same_orbit_returns:
  assumes "graph_getcan_abort nty g = None"
  shows "first_failure (map (\<lambda>i. graph_same_orbit nty g i root) [0..<graph_order g]) = None
           \<longleftrightarrow> (root < graph_order g \<or> graph_order g = 0)"
  using assms by (auto simp: first_failure_None graph_same_orbit_def graph_order_def)

lemma in_orbit_iff:
  assumes "graph_getcan_abort nty g = None" "root < graph_order g" "i < graph_order g"
  shows "in_orbit nty g root i \<longleftrightarrow> graph_orbits nty g ! i = graph_orbits nty g ! root"
  using assms by (auto simp: in_orbit_def graph_same_orbit_def graph_order_def)

lemma traversal_prepare_unfold:
  assumes "root < graph_order g"
    and "first_failure (map (\<lambda>i. graph_same_orbit nty g i root) [0..<graph_order g]) = None"
  shows "traversal_prepare nty root g =
     (case trav_loop (graph_aut_gens nty g) (orbit_list nty g root) (trav_start nty root g) of
        None \<Rightarrow> None
      | Some (ind, t) \<Rightarrow>
          if list_ex (\<lambda>j. t ! j ! root \<noteq> orbit_list nty g root ! j)
               [0..<length (orbit_list nty g root)]
          then Some (Inl (ABORT ''bad traversal''))
          else Some (Inr (length (orbit_list nty g root), t)))"
  unfolding traversal_prepare_def trav_mark_foldl orbit_list_def trav_start_def orbit_pos_def
    Let_def
  using assms in_orbit_root[OF assms(1), of nty] by simp

lemma orbit_list_facts:
  "distinct (orbit_list nty g root)" "set (orbit_list nty g root) \<subseteq> {..<graph_order g}"
  "sorted_wrt (<) (orbit_list nty g root)"
  by (auto simp: orbit_list_def sorted_wrt_filter)

lemma orbit_list_nth_pos:
  assumes "j < length (orbit_list nty g root)"
  shows "orbit_pos nty g root (orbit_list nty g root ! j) = j"
  using assms unfolding orbit_list_def orbit_pos_def by (rule filter_upt_pos)

lemma orbit_pos_nth:
  assumes "i < graph_order g" "in_orbit nty g root i"
  shows "orbit_pos nty g root i < length (orbit_list nty g root)"
    "orbit_list nty g root ! orbit_pos nty g root i = i"
proof -
  let ?P = "in_orbit nty g root"
  have "[0..<graph_order g] = [0..<i] @ i # [Suc i..<graph_order g]"
    using assms(1) by (metis le_add1 less_imp_add_positive upt_add_eq_append upt_conv_Cons plus_nat.add_0)
  then have e: "orbit_list nty g root = filter ?P [0..<i] @ i # filter ?P [Suc i..<graph_order g]"
    using assms(2) by (simp add: orbit_list_def)
  show "orbit_pos nty g root i < length (orbit_list nty g root)"
    unfolding e orbit_pos_def by simp
  show "orbit_list nty g root ! orbit_pos nty g root i = i"
    unfolding e orbit_pos_def by (simp add: nth_append)
qed

lemma in_orbit_list: "j < length (orbit_list nty g root) \<Longrightarrow>
   in_orbit nty g root (orbit_list nty g root ! j) \<and> orbit_list nty g root ! j < graph_order g"
  using nth_mem[of j "orbit_list nty g root"] by (auto simp: orbit_list_def)

lemma trav_start_inv:
  assumes r: "root < graph_order g"
  shows "trav_inv (graph_order g) gens root (orbit_list nty g root) (trav_start nty root g)"
proof -
  let ?n = "graph_order g" and ?L = "orbit_list nty g root"
  let ?rp = "orbit_pos nty g root root"
  have rp: "?rp < length ?L" "?L ! ?rp = root"
    using orbit_pos_nth[OF r in_orbit_root[OF r]] by auto
  have A: "\<forall>j<length ?L. fst (trav_start nty root g) ! (?L ! j) = int j \<or>
      (fst (trav_start nty root g) ! (?L ! j) = - 1 \<and>
       trav_row_ok ?n gens root ?L (snd (trav_start nty root g)) j)"
  proof (intro allI impI)
    fix j assume j: "j < length ?L"
    note f = in_orbit_list[OF j] orbit_list_nth_pos[OF j]
    show "fst (trav_start nty root g) ! (?L ! j) = int j \<or>
      (fst (trav_start nty root g) ! (?L ! j) = - 1 \<and>
       trav_row_ok ?n gens root ?L (snd (trav_start nty root g)) j)"
    proof (cases "?L ! j = root")
      case True
      then have "j = ?rp" using f by simp
      then show ?thesis using True r rp
        by (simp add: trav_start_def trav_row_ok_def gen_products.gp_id)
    next
      case False
      then show ?thesis using f by (simp add: trav_start_def)
    qed
  qed
  have B: "\<forall>v<?n. v \<notin> set ?L \<longrightarrow> fst (trav_start nty root g) ! v < 0"
  proof (intro allI impI)
    fix v assume v: "v < ?n" "v \<notin> set ?L"
    then have "\<not> in_orbit nty g root v" by (simp add: orbit_list_def)
    then show "fst (trav_start nty root g) ! v < 0"
      using v r by (cases "v = root") (auto simp: trav_start_def)
  qed
  have C: "\<forall>j<length ?L. ?L ! j = root \<longrightarrow> fst (trav_start nty root g) ! root = - 1
      \<and> snd (trav_start nty root g) ! j = [0..<?n]"
  proof (intro allI impI)
    fix j assume j: "j < length ?L" "?L ! j = root"
    then have "j = ?rp" using orbit_list_nth_pos[OF j(1)] by simp
    then show "fst (trav_start nty root g) ! root = - 1
      \<and> snd (trav_start nty root g) ! j = [0..<?n]"
      using r rp by (simp add: trav_start_def)
  qed
  show ?thesis unfolding trav_inv_def using A B C
    by (simp add: case_prod_unfold) (simp add: trav_start_def)
qed

lemma is_perm_nth: "is_perm n p \<Longrightarrow> x < n \<Longrightarrow> p ! x < n"
  by (auto simp: is_perm_def list_all_length)

lemma is_perm_wf_gens: "\<forall>p\<in>set gens. is_perm n p \<Longrightarrow> wf_gens n gens"
  by (auto simp: wf_gens_def is_perm_def list_all_iff)

lemma is_perm_id: "is_perm n [0..<n]"
  by (simp add: is_perm_def list_all_iff)

lemma is_perm_compose:
  assumes p: "is_perm n p" and t: "is_perm n \<tau>"
  shows "is_perm n (map (\<lambda>x. p ! x) \<tau>)"
proof -
  from t have st: "set \<tau> \<subseteq> {..<n}" and dt: "distinct \<tau>" and lt: "length \<tau> = n"
    by (auto simp: is_perm_def list_all_iff)
  from p have "inj_on (\<lambda>x. p ! x) {..<n}"
    by (auto simp: is_perm_def intro!: inj_on_nth)
  with st have "inj_on (\<lambda>x. p ! x) (set \<tau>)" by (rule inj_on_subset[rotated])
  with dt have "distinct (map (\<lambda>x. p ! x) \<tau>)" by (simp add: distinct_map)
  moreover have "list_all (\<lambda>x. x < n) (map (\<lambda>x. p ! x) \<tau>)"
    using st p by (auto simp: list_all_iff dest: is_perm_nth)
  ultimately show ?thesis using lt by (simp add: is_perm_def)
qed

lemma gen_products_perm:
  assumes "\<tau> \<in> gen_products n gens" and "\<forall>p\<in>set gens. is_perm n p"
  shows "is_perm n \<tau>"
  using assms by (induction rule: gen_products.induct) (auto intro: is_perm_id is_perm_compose)

lemma trav_done_iff: "trav_done list ind = (\<forall>j<length list. ind ! (list ! j) < 0)"
  by (simp add: trav_done_def list_all_length)

lemma traversal_prepare_rows:
  assumes ret: "traversal_prepare nty root g = Some (Inr (len, t))"
    and wf: "wf_gens (graph_order g) (graph_aut_gens nty g)"
  shows "root < graph_order g" "len = length (orbit_list nty g root)" "length t = len"
    "\<And>j. j < len \<Longrightarrow> length (t ! j) = graph_order g \<and>
        t ! j \<in> gen_products (graph_order g) (graph_aut_gens nty g) \<and>
        t ! j ! root = orbit_list nty g root ! j"
    "\<And>j. j < len \<Longrightarrow> orbit_list nty g root ! j = root \<Longrightarrow> t ! j = [0..<graph_order g]"
proof -
  let ?n = "graph_order g" and ?L = "orbit_list nty g root" and ?G = "graph_aut_gens nty g"
  show r: "root < ?n" using ret by (auto simp: traversal_prepare_def Let_def split: if_splits)
  have nf: "first_failure (map (\<lambda>i. graph_same_orbit nty g i root) [0..<?n]) = None"
    using ret r by (auto simp: traversal_prepare_def Let_def split: option.splits)
  from ret traversal_prepare_unfold[OF r nf]
  obtain ind where loop: "trav_loop ?G ?L (trav_start nty root g) = Some (ind, t)"
    and l: "len = length ?L"
    by (auto split: option.splits if_splits)
  show "len = length ?L" by (rule l)
  from trav_loop_inv[OF loop trav_start_inv[OF r] orbit_list_facts(1,2) r wf]
  have inv: "trav_inv ?n ?G root ?L (ind, t)" and dn: "trav_done ?L ind" by auto
  from inv show "length t = len" by (simp add: trav_inv_def l)
  { fix j assume j: "j < len"
    with dn l have "ind ! (?L ! j) < 0" by (simp add: trav_done_iff)
    with inv j l have "trav_row_ok ?n ?G root ?L t j" by (auto simp: trav_inv_def)
    then show "length (t ! j) = ?n \<and> t ! j \<in> gen_products ?n ?G \<and> t ! j ! root = ?L ! j"
      by (simp add: trav_row_ok_def) }
  { fix j assume "j < len" "?L ! j = root"
    with inv l show "t ! j = [0..<?n]" by (auto simp: trav_inv_def) }
qed

lemma list_update_neg: "(ind :: int list) ! u < 0 \<Longrightarrow> ind[v := - 1] ! u < 0"
  by (cases "v < length ind") (auto simp: nth_list_update list_update_beyond)

lemma trav_visit_mono: "fst s ! u < 0 \<Longrightarrow> fst (trav_visit list p s j) ! u < 0"
  by (cases s) (auto simp: trav_visit_def Let_def list_update_neg)

lemma trav_visits_mono: "fst s ! u < 0 \<Longrightarrow> fst (foldl (trav_visit list p) s js) ! u < 0"
  by (induction js arbitrary: s) (auto simp: trav_visit_mono)

lemma trav_gens_mono: "fst s ! u < 0 \<Longrightarrow>
   fst (foldl (\<lambda>s p. foldl (trav_visit list p) s js) s ps) ! u < 0"
  by (induction ps arbitrary: s) (auto simp: trav_visits_mono)

lemma trav_visit_marks:
  assumes inv: "trav_inv n gens root list s" and sub: "set list \<subseteq> {..<n}"
    and j: "j < length list" and u: "fst s ! (list ! j) < 0" and v: "p ! (list ! j) \<in> set list"
  shows "fst (trav_visit list p s j) ! (p ! (list ! j)) < 0"
proof -
  obtain ind t where s: "s = (ind, t)" by (cases s)
  from v sub have "p ! (list ! j) < n" by auto
  moreover from inv s have "length ind = n" by (simp add: trav_inv_def)
  ultimately show ?thesis using u s by (auto simp: trav_visit_def Let_def)
qed

lemma trav_visits_marks:
  assumes "trav_inv n gens root list s" "distinct list" "set list \<subseteq> {..<n}" "root < n"
    "p \<in> set gens" "wf_gens n gens" "\<forall>j\<in>set js. j < length list"
    "j \<in> set js" "fst s ! (list ! j) < 0" "p ! (list ! j) \<in> set list"
  shows "fst (foldl (trav_visit list p) s js) ! (p ! (list ! j)) < 0"
  using assms
proof (induction js arbitrary: s)
  case Nil
  then show ?case by simp
next
  case (Cons a js)
  show ?case
  proof (cases "a = j")
    case True
    have "fst (trav_visit list p s j) ! (p ! (list ! j)) < 0"
      using Cons.prems by (intro trav_visit_marks[where n=n and gens=gens and root=root]) auto
    then show ?thesis using True by (simp add: trav_visits_mono)
  next
    case False
    have "trav_inv n gens root list (trav_visit list p s a)"
      using Cons.prems by (intro trav_visit_inv) auto
    moreover have "fst (trav_visit list p s a) ! (list ! j) < 0"
      using Cons.prems by (intro trav_visit_mono)
    ultimately show ?thesis using Cons.prems False Cons.IH[of "trav_visit list p s a"] by simp
  qed
qed

lemma trav_gens_marks:
  assumes "trav_inv n gens root list s" "distinct list" "set list \<subseteq> {..<n}" "root < n"
    "set ps \<subseteq> set gens" "wf_gens n gens" "p \<in> set ps"
    "j < length list" "fst s ! (list ! j) < 0" "p ! (list ! j) \<in> set list"
  shows "fst (foldl (\<lambda>s p. foldl (trav_visit list p) s [0..<length list]) s ps)
           ! (p ! (list ! j)) < 0"
  using assms
proof (induction ps arbitrary: s)
  case Nil
  then show ?case by simp
next
  case (Cons a ps)
  let ?s = "foldl (trav_visit list a) s [0..<length list]"
  show ?case
  proof (cases "a = p")
    case True
    have "fst ?s ! (p ! (list ! j)) < 0" unfolding True
      using Cons.prems by (intro trav_visits_marks[where n=n and gens=gens and root=root]) auto
    then show ?thesis using True by (simp add: trav_gens_mono)
  next
    case False
    have "trav_inv n gens root list ?s"
      using Cons.prems by (intro trav_visits_inv) auto
    moreover have "fst ?s ! (list ! j) < 0"
      using Cons.prems by (intro trav_visits_mono)
    ultimately show ?thesis using Cons.prems False Cons.IH[of ?s] by simp
  qed
qed

definition trav_undone :: "nat list \<Rightarrow> int list \<times> nat list list \<Rightarrow> nat set" where
  "trav_undone list s = {u \<in> set list. \<not> fst s ! u < 0}"

lemma trav_sweep_progress:
  assumes inv: "trav_inv n gens root list s" and d: "distinct list"
    and sub: "set list \<subseteq> {..<n}" and r: "root < n" and wf: "wf_gens n gens"
    and closed: "\<forall>u\<in>set list. \<forall>p\<in>set gens. p ! u \<in> set list"
    and covered: "set list \<subseteq> gen_reach gens root"
    and rin: "root \<in> set list"
    and nd: "\<not> trav_done list (fst s)"
  shows "trav_undone list (trav_sweep gens list s) \<subset> trav_undone list s"
proof -
  let ?D = "{u \<in> set list. fst s ! u < 0}"
  from rin obtain jr where jr: "jr < length list" "list ! jr = root"
    by (auto simp: in_set_conv_nth)
  with inv have rD: "root \<in> ?D" using rin by (cases s) (auto simp: trav_inv_def)
  have ex: "\<exists>u\<in>?D. \<exists>p\<in>set gens. p ! u \<notin> ?D"
  proof (rule ccontr)
    assume "\<not> ?thesis"
    then have cl: "\<And>u p. u \<in> ?D \<Longrightarrow> p \<in> set gens \<Longrightarrow> p ! u \<in> ?D" by blast
    have "x \<in> ?D" if "x \<in> gen_reach gens root" for x
      using that by (induction rule: gen_reach.induct) (use rD cl in auto)
    with covered have "\<forall>u\<in>set list. fst s ! u < 0" by blast
    with nd show False by (auto simp: trav_done_def list_all_iff)
  qed
  then obtain u p where u: "u \<in> set list" "fst s ! u < 0" and p: "p \<in> set gens"
    and v: "p ! u \<notin> ?D" by blast
  from closed u p have vin: "p ! u \<in> set list" by blast
  with v have vund: "p ! u \<in> trav_undone list s" by (simp add: trav_undone_def)
  from u obtain j where j: "j < length list" "list ! j = u" by (auto simp: in_set_conv_nth)
  have "fst (trav_sweep gens list s) ! (p ! (list ! j)) < 0"
    unfolding trav_sweep_def
    using inv d sub r wf p j u vin
    by (intro trav_gens_marks[where n=n and gens=gens and root=root]) auto
  then have "p ! u \<notin> trav_undone list (trav_sweep gens list s)"
    using j by (simp add: trav_undone_def)
  moreover have "trav_undone list (trav_sweep gens list s) \<subseteq> trav_undone list s"
    by (auto simp: trav_undone_def trav_sweep_def trav_gens_mono)
  ultimately show ?thesis using vund by blast
qed

lemma trav_loop_terminates:
  assumes d: "distinct list"
    and sub: "set list \<subseteq> {..<n}" and r: "root < n" and wf: "wf_gens n gens"
    and closed: "\<forall>u\<in>set list. \<forall>p\<in>set gens. p ! u \<in> set list"
    and covered: "set list \<subseteq> gen_reach gens root"
    and rin: "root \<in> set list"
  shows "trav_inv n gens root list s \<Longrightarrow> \<exists>s'. trav_loop gens list s = Some s'"
proof (induction "card (trav_undone list s)" arbitrary: s rule: less_induct)
  case less
  show ?case
  proof (cases "trav_done list (fst s)")
    case True
    then show ?thesis by (subst trav_loop.simps) simp
  next
    case False
    have "trav_undone list (trav_sweep gens list s) \<subset> trav_undone list s"
      using less.prems d sub r wf closed covered rin False by (rule trav_sweep_progress)
    moreover have "finite (trav_undone list s)" by (simp add: trav_undone_def)
    ultimately have "card (trav_undone list (trav_sweep gens list s)) < card (trav_undone list s)"
      by (rule psubset_card_mono[rotated])
    moreover have "trav_inv n gens root list (trav_sweep gens list s)"
      using less.prems d sub r wf by (rule trav_sweep_inv)
    ultimately obtain s' where "trav_loop gens list (trav_sweep gens list s) = Some s'"
      using less.hyps by blast
    then show ?thesis using False by (subst trav_loop.simps) simp
  qed
qed

lemma gen_products_length: "\<tau> \<in> gen_products n gens \<Longrightarrow> length \<tau> = n"
  by (induction rule: gen_products.induct) auto

lemma gen_products_reach:
  assumes "\<tau> \<in> gen_products n gens" "root < n"
  shows "\<tau> ! root \<in> gen_reach gens root"
  using assms
proof (induction rule: gen_products.induct)
  case gp_id
  then show ?case by (simp add: gen_reach.gr_root)
next
  case (gp_step \<tau> p)
  then show ?case by (simp add: gen_products_length gen_reach.gr_step)
qed

lemma traversal_prepare_returns:
  assumes r: "root < graph_order g"
    and ok: "graph_getcan_abort nty g = None"
    and wf: "wf_gens (graph_order g) (graph_aut_gens nty g)"
    and closed: "\<forall>u\<in>set (orbit_list nty g root). \<forall>p\<in>set (graph_aut_gens nty g).
        p ! u \<in> set (orbit_list nty g root)"
    and covered: "set (orbit_list nty g root) \<subseteq> gen_reach (graph_aut_gens nty g) root"
  shows "\<exists>t. traversal_prepare nty root g = Some (Inr (length (orbit_list nty g root), t))"
proof -
  let ?n = "graph_order g" and ?L = "orbit_list nty g root" and ?G = "graph_aut_gens nty g"
  have rin: "root \<in> set ?L" using r in_orbit_root[OF r] by (simp add: orbit_list_def)
  from trav_loop_terminates[OF orbit_list_facts(1,2) r wf closed covered rin trav_start_inv[OF r]]
  obtain ind t where loop: "trav_loop ?G ?L (trav_start nty root g) = Some (ind, t)"
    by (metis surj_pair)
  from trav_loop_inv[OF loop trav_start_inv[OF r] orbit_list_facts(1,2) r wf]
  have inv: "trav_inv ?n ?G root ?L (ind, t)" and dn: "trav_done ?L ind" by auto
  have "\<not> list_ex (\<lambda>j. t ! j ! root \<noteq> ?L ! j) [0..<length ?L]"
  proof -
    { fix j assume j: "j < length ?L"
      with dn have "ind ! (?L ! j) < 0" by (simp add: trav_done_iff)
      with inv j have "trav_row_ok ?n ?G root ?L t j" by (auto simp: trav_inv_def)
      then have "t ! j ! root = ?L ! j" by (simp add: trav_row_ok_def) }
    then show ?thesis by (simp add: list_ex_iff)
  qed
  moreover have "first_failure (map (\<lambda>i. graph_same_orbit nty g i root) [0..<?n]) = None"
    using same_orbit_returns[OF ok, of root] r by simp
  ultimately show ?thesis using loop by (simp add: traversal_prepare_unfold[OF r])
qed

lemma traversal_prepare_diverges:
  assumes r: "root < graph_order g"
    and ok: "graph_getcan_abort nty g = None"
    and wf: "wf_gens (graph_order g) (graph_aut_gens nty g)"
    and unc: "u \<in> set (orbit_list nty g root)" "u \<notin> gen_reach (graph_aut_gens nty g) root"
  shows "traversal_prepare nty root g = None"
proof -
  let ?n = "graph_order g" and ?L = "orbit_list nty g root" and ?G = "graph_aut_gens nty g"
  have "trav_loop ?G ?L (trav_start nty root g) = None"
  proof (cases "trav_loop ?G ?L (trav_start nty root g)")
    case None
    then show ?thesis .
  next
    case (Some s')
    obtain ind t where s': "s' = (ind, t)" by (cases s')
    from trav_loop_inv[OF Some trav_start_inv[OF r] orbit_list_facts(1,2) r wf] s'
    have inv: "trav_inv ?n ?G root ?L (ind, t)" and dn: "trav_done ?L ind" by auto
    from unc(1) obtain j where j: "j < length ?L" "?L ! j = u" by (auto simp: in_set_conv_nth)
    from dn j(1) have "ind ! (?L ! j) < 0" by (simp add: trav_done_iff)
    with inv j(1) have "trav_row_ok ?n ?G root ?L t j" by (auto simp: trav_inv_def)
    then have "t ! j \<in> gen_products ?n ?G" "t ! j ! root = u"
      using j by (auto simp: trav_row_ok_def)
    with gen_products_reach[OF this(1) r] unc(2) show ?thesis by simp
  qed
  moreover have "first_failure (map (\<lambda>i. graph_same_orbit nty g i root) [0..<?n]) = None"
    using same_orbit_returns[OF ok, of root] r by simp
  ultimately show ?thesis by (simp add: traversal_prepare_unfold[OF r])
qed

subsection \<open>Automorphisms\<close>

text \<open>
  Adjacency and the colour of a vertex (the number of the cell of \<open>lab\<close>, \<open>ptn\<close> it lies in),
  and the automorphisms of a graph: the permutations that keep both.
\<close>


definition adjacent :: "graph \<Rightarrow> nat \<Rightarrow> nat \<Rightarrow> bool" where
  "adjacent g i j = (edge_make i j \<in> set (edgebuf g))"

definition colour :: "graph \<Rightarrow> nat \<Rightarrow> nat" where
  "colour g v =
     length (filter (\<lambda>k. ptn g ! k = 0) [0..<length (takeWhile (\<lambda>x. x \<noteq> v) (lab g))])"

definition is_automorphism :: "graph \<Rightarrow> nat list \<Rightarrow> bool" where
  "is_automorphism g p =
     (is_perm (order g) p \<and>
      list_all (\<lambda>i. list_all (\<lambda>j. adjacent g (p ! i) (p ! j) = adjacent g i j) [0..<order g])
        [0..<order g] \<and>
      list_all (\<lambda>v. colour g (p ! v) = colour g v) [0..<order g])"

lemma is_automorphism_id: "is_automorphism g [0..<order g]"
  by (simp add: is_automorphism_def is_perm_id list_all_iff)

lemma is_automorphism_compose:
  assumes p: "is_automorphism g p" and t: "is_automorphism g \<tau>"
  shows "is_automorphism g (map (\<lambda>x. p ! x) \<tau>)"
proof -
  let ?n = "order g"
  from t have tp: "is_perm ?n \<tau>" by (simp add: is_automorphism_def)
  then have lt: "length \<tau> = ?n" and tn: "\<And>x. x < ?n \<Longrightarrow> \<tau> ! x < ?n"
    by (auto simp: is_perm_def dest: is_perm_nth[OF tp])
  from p have pp: "is_perm ?n p" by (simp add: is_automorphism_def)
  have "is_perm ?n (map (\<lambda>x. p ! x) \<tau>)" using pp tp by (rule is_perm_compose)
  moreover have "adjacent g (map (\<lambda>x. p ! x) \<tau> ! i) (map (\<lambda>x. p ! x) \<tau> ! j) = adjacent g i j"
    if "i < ?n" "j < ?n" for i j
    using that p t tn lt by (simp add: is_automorphism_def list_all_iff)
  moreover have "colour g (map (\<lambda>x. p ! x) \<tau> ! v) = colour g v" if "v < ?n" for v
    using that p t tn lt by (simp add: is_automorphism_def list_all_iff)
  ultimately show ?thesis by (simp add: is_automorphism_def list_all_iff)
qed

lemma gen_products_automorphism:
  assumes "\<tau> \<in> gen_products (order g) gens" and "list_all (is_automorphism g) gens"
  shows "is_automorphism g \<tau>"
  using assms
  by (induction rule: gen_products.induct)
     (auto simp: list_all_iff intro: is_automorphism_id is_automorphism_compose)

definition three_points :: graph where
  "three_points = \<lparr>order = 3, edgebuf = [], lab = [0, 1, 2], ptn = [1, 1, 0], can = None\<rparr>"

definition three_points_nauty :: nauty where
  "three_points_nauty n e l p =
     \<lparr>out_lab = [0, 1, 2], out_ptn = [0, 0, 0], out_orb = [0, 0, 0],
      out_gen = [[0, 2, 1], [1, 0, 2]], out_idx = [3, 2], out_can = [[], [], []]\<rparr>"

subsection \<open>Validity of a traversal\<close>

lemma orbit_list_orbit_of:
  assumes ok: "graph_getcan_abort nty g = None" and r: "root < graph_order g"
  shows "set (orbit_list nty g root) = orbit_of nty g root"
    and "orbit_list nty g root = sorted_list_of_set (orbit_of nty g root)"
    and "length (orbit_list nty g root) = card (orbit_of nty g root)"
proof -
  show s: "set (orbit_list nty g root) = orbit_of nty g root"
    using in_orbit_iff[OF ok r] by (auto simp: orbit_list_def orbit_of_def)
  have "sorted (orbit_list nty g root)"
    using orbit_list_facts(3)[of nty g root] by (simp add: strict_sorted_iff)
  from sorted_list_of_set.idem_if_sorted_distinct[OF this orbit_list_facts(1)] s
  show "orbit_list nty g root = sorted_list_of_set (orbit_of nty g root)" by simp
  from distinct_card[OF orbit_list_facts(1), of nty g root] s
  show "length (orbit_list nty g root) = card (orbit_of nty g root)" by simp
qed

lemma traversal_prepare_total:
  assumes r: "root < graph_order g"
    and ok: "graph_getcan_abort nty g = None"
    and perms: "list_all (is_perm (graph_order g)) (graph_aut_gens nty g)"
    and resp: "list_all (\<lambda>p. list_all (\<lambda>u. graph_orbits nty g ! (p ! u) = graph_orbits nty g ! u)
                  [0..<graph_order g]) (graph_aut_gens nty g)"
    and cov: "orbit_of nty g root \<subseteq> gen_reach (graph_aut_gens nty g) root"
  shows "\<exists>t. traversal_prepare nty root g = Some (Inr (length (orbit_list nty g root), t))"
proof -
  let ?n = "graph_order g" and ?L = "orbit_list nty g root" and ?G = "graph_aut_gens nty g"
  note LO = orbit_list_orbit_of[OF ok r]
  from perms have p: "\<forall>p\<in>set ?G. is_perm ?n p" by (simp add: list_all_iff)
  then have wf: "wf_gens ?n ?G" by (rule is_perm_wf_gens)
  have closed: "\<forall>u\<in>set ?L. \<forall>p\<in>set ?G. p ! u \<in> set ?L"
  proof (intro ballI)
    fix u p assume u: "u \<in> set ?L" and pG: "p \<in> set ?G"
    from u LO(1) have un: "u < ?n" and uo: "graph_orbits nty g ! u = graph_orbits nty g ! root"
      by (auto simp: orbit_of_def)
    from p pG un have "p ! u < ?n" by (auto intro: is_perm_nth)
    moreover from resp pG un have "graph_orbits nty g ! (p ! u) = graph_orbits nty g ! u"
      by (auto simp: list_all_iff)
    ultimately have "p ! u \<in> orbit_of nty g root" using uo by (simp add: orbit_of_def)
    then show "p ! u \<in> set ?L" using LO(1) by simp
  qed
  have covered: "set ?L \<subseteq> gen_reach ?G root" using cov LO(1) by simp
  from traversal_prepare_returns[OF r ok wf closed covered] show ?thesis .
qed

text \<open>A path of three vertices of one colour, \<open>0 - 1 - 2\<close>: the ends form one orbit, the
  middle vertex another, and the automorphism that exchanges the ends generates the
  group. The canonical labeling puts the middle vertex first.\<close>

definition three_path :: graph where
  "three_path = \<lparr>order = 3, edgebuf = [(0, 1), (1, 2)], lab = [0, 1, 2], ptn = [1, 1, 0],
     can = None\<rparr>"

definition three_path_nauty :: nauty where
  "three_path_nauty n e l p =
     \<lparr>out_lab = [1, 0, 2], out_ptn = [0, 0, 0], out_orb = [0, 1, 0],
      out_gen = [[2, 1, 0]], out_idx = [2], out_can = [[1, 2], [0], [0]]\<rparr>"

lemma three_path_facts:
  "graph_order three_path = 3"
  "graph_getcan_abort three_path_nauty three_path = None"
  "graph_aut_gens three_path_nauty three_path = [[2, 1, 0]]"
  "graph_orbits three_path_nauty three_path = [0, 1, 0]"
  "orbit_list three_path_nauty three_path 2 = [0, 2]"
  by code_simp+

lemma three_path_orbit: "orbit_of three_path_nauty three_path 2 = {0, 2}"
proof -
  have "2 < graph_order three_path" by (simp add: three_path_facts)
  from orbit_list_orbit_of(1)[OF three_path_facts(2) this] show ?thesis
    by (simp add: three_path_facts insert_commute)
qed

lemma three_path_reach: "{0, 2} \<subseteq> gen_reach [[2, 1, 0]] (2 :: nat)"
proof -
  have a: "(2 :: nat) \<in> gen_reach [[2, 1, 0]] 2" by (rule gen_reach.gr_root)
  have "[2, 1, 0 :: nat] ! 2 \<in> gen_reach [[2, 1, 0]] 2"
    by (rule gen_reach.gr_step[OF a]) simp
  then have "(0 :: nat) \<in> gen_reach [[2, 1, 0]] 2" by simp
  with a show ?thesis by simp
qed

text \<open>
  Claim C6. Let \<open>graph_getcan\<close> return for the graph, let the root be a vertex, and let the
  labeler keep its contract: the generators are permutations of \<open>{0..n-1}\<close>, each of them
  keeps every vertex in its orbit (as the orbit array has it), and every vertex of the
  root's orbit is reached from the root with the generators. Then \<open>traversal_prepare\<close>
  returns a traversal with one row per vertex of the root's orbit; every row \<open>t ! j\<close> is a
  permutation of \<open>{0..n-1}\<close> and a product of the labeler's generators (hence an
  automorphism of the graph when the generators are), it carries the root to the \<open>j\<close>-th
  vertex of the orbit, and the row of the root itself is the identity.
\<close>

theorem traversal_prepare_valid:
  assumes r: "root < graph_order g"
    and ok: "graph_getcan_abort nty g = None"
    and perms: "list_all (is_perm (graph_order g)) (graph_aut_gens nty g)"
    and resp: "list_all (\<lambda>p. list_all (\<lambda>u. graph_orbits nty g ! (p ! u) = graph_orbits nty g ! u)
                  [0..<graph_order g]) (graph_aut_gens nty g)"
    and cov: "orbit_of nty g root \<subseteq> gen_reach (graph_aut_gens nty g) root"
  shows "\<exists>t. traversal_prepare nty root g = Some (Inr (card (orbit_of nty g root), t)) \<and>
    length t = card (orbit_of nty g root) \<and>
    root \<in> orbit_of nty g root \<and>
    (\<forall>j<card (orbit_of nty g root). is_perm (graph_order g) (t ! j)
        \<and> t ! j \<in> gen_products (graph_order g) (graph_aut_gens nty g)
        \<and> (list_all (is_automorphism g) (graph_aut_gens nty g) \<longrightarrow> is_automorphism g (t ! j))
        \<and> t ! j ! root = sorted_list_of_set (orbit_of nty g root) ! j
        \<and> (sorted_list_of_set (orbit_of nty g root) ! j = root \<longrightarrow> t ! j = [0..<graph_order g]))"
proof -
  let ?O = "orbit_of nty g root" and ?L = "orbit_list nty g root"
  note LO = orbit_list_orbit_of[OF ok r]
  from traversal_prepare_total[OF assms]
  obtain t where ret: "traversal_prepare nty root g = Some (Inr (length ?L, t))" by blast
  from perms have p: "\<forall>p\<in>set (graph_aut_gens nty g). is_perm (graph_order g) p"
    by (simp add: list_all_iff)
  then have wf: "wf_gens (graph_order g) (graph_aut_gens nty g)" by (rule is_perm_wf_gens)
  note rows = traversal_prepare_rows[OF ret wf]
  have rin: "root \<in> ?O" using r by (simp add: orbit_of_def)
  have "is_perm (graph_order g) (t ! j)
        \<and> t ! j \<in> gen_products (graph_order g) (graph_aut_gens nty g)
        \<and> (list_all (is_automorphism g) (graph_aut_gens nty g) \<longrightarrow> is_automorphism g (t ! j))
        \<and> t ! j ! root = ?L ! j
        \<and> (?L ! j = root \<longrightarrow> t ! j = [0..<graph_order g])"
    if j: "j < length ?L" for j
  proof -
    from rows(4)[OF j] have pr: "t ! j \<in> gen_products (graph_order g) (graph_aut_gens nty g)"
      and im: "t ! j ! root = ?L ! j" by auto
    from pr p have "is_perm (graph_order g) (t ! j)" by (rule gen_products_perm)
    moreover have "is_automorphism g (t ! j)"
      if "list_all (is_automorphism g) (graph_aut_gens nty g)"
      using pr that by (intro gen_products_automorphism) (simp_all add: graph_order_def)
    ultimately show ?thesis using pr im rows(5)[OF j] by blast
  qed
  then have "\<forall>j<card ?O. is_perm (graph_order g) (t ! j)
        \<and> t ! j \<in> gen_products (graph_order g) (graph_aut_gens nty g)
        \<and> (list_all (is_automorphism g) (graph_aut_gens nty g) \<longrightarrow> is_automorphism g (t ! j))
        \<and> t ! j ! root = sorted_list_of_set ?O ! j
        \<and> (sorted_list_of_set ?O ! j = root \<longrightarrow> t ! j = [0..<graph_order g])"
    unfolding LO(2)[symmetric] LO(3)[symmetric] by blast
  moreover have "traversal_prepare nty root g = Some (Inr (card ?O, t))"
    using ret unfolding LO(3) .
  moreover have "length t = card ?O" using rows(3) LO(3) by simp
  ultimately show ?thesis using rin by blast
qed

text \<open>The path of three vertices with the root 2: the orbit is \<open>{0, 2}\<close>, the row of 0 is the
  exchange of the ends and the row of the root the identity.\<close>

theorem traversal_prepare_valid_witness:
  "2 < graph_order three_path
   \<and> graph_getcan_abort three_path_nauty three_path = None
   \<and> list_all (is_perm (graph_order three_path)) (graph_aut_gens three_path_nauty three_path)
   \<and> list_all (\<lambda>p. list_all (\<lambda>u. graph_orbits three_path_nauty three_path ! (p ! u)
                                  = graph_orbits three_path_nauty three_path ! u)
                  [0..<graph_order three_path]) (graph_aut_gens three_path_nauty three_path)
   \<and> orbit_of three_path_nauty three_path 2
        \<subseteq> gen_reach (graph_aut_gens three_path_nauty three_path) 2
   \<and> orbit_of three_path_nauty three_path 2 = {0, 2}
   \<and> traversal_prepare three_path_nauty 2 three_path = Some (Inr (2, [[2, 1, 0], [0, 1, 2]]))
   \<and> list_all (is_automorphism three_path) (graph_aut_gens three_path_nauty three_path)
   \<and> is_perm 3 [2, 1, 0]
   \<and> [2, 1, 0] \<in> gen_products 3 (graph_aut_gens three_path_nauty three_path)
   \<and> is_automorphism three_path [2, 1, 0]"
proof -
  have h: "2 < graph_order three_path"
    "graph_getcan_abort three_path_nauty three_path = None"
    "list_all (is_perm (graph_order three_path)) (graph_aut_gens three_path_nauty three_path)"
    "list_all (\<lambda>p. list_all (\<lambda>u. graph_orbits three_path_nauty three_path ! (p ! u)
                                  = graph_orbits three_path_nauty three_path ! u)
                  [0..<graph_order three_path]) (graph_aut_gens three_path_nauty three_path)"
    by code_simp+
  have c: "orbit_of three_path_nauty three_path 2
        \<subseteq> gen_reach (graph_aut_gens three_path_nauty three_path) 2"
    using three_path_reach by (simp add: three_path_orbit three_path_facts)
  have e: "traversal_prepare three_path_nauty 2 three_path
      = Some (Inr (2, [[2, 1, 0], [0, 1, 2]]))" by code_simp
  have a: "list_all (is_automorphism three_path) (graph_aut_gens three_path_nauty three_path)"
    by code_simp
  from traversal_prepare_valid[OF h c] e a
  have "is_perm (graph_order three_path) ([[2, 1, 0], [0, 1, 2]] ! 0)
      \<and> [[2, 1, 0], [0, 1, 2]] ! 0
           \<in> gen_products (graph_order three_path) (graph_aut_gens three_path_nauty three_path)
      \<and> is_automorphism three_path ([[2, 1, 0], [0, 1, 2]] ! 0)"
    by (auto simp: three_path_orbit)
  then show ?thesis using h c e a by (simp add: three_path_orbit three_path_facts)
qed

subsection \<open>An orbit the generators do not cover\<close>

definition two_points :: graph where
  "two_points = \<lparr>order = 2, edgebuf = [], lab = [0, 1], ptn = [1, 0], can = None\<rparr>"

text \<open>A labeler that breaks its contract: one orbit of two vertices and no generator.\<close>

definition stuck_nauty :: nauty where
  "stuck_nauty n e l p =
     \<lparr>out_lab = [0, 1], out_ptn = [0, 0], out_orb = [0, 0], out_gen = [], out_idx = [],
      out_can = [[], []]\<rparr>"

lemma stuck_facts:
  "graph_order two_points = 2" "graph_aut_gens stuck_nauty two_points = []"
  "orbit_list stuck_nauty two_points 0 = [0, 1]"
  "graph_getcan_abort stuck_nauty two_points = None"
  "graph_orbits stuck_nauty two_points = [0, 0]"
  by code_simp+

lemma stuck_orbit: "orbit_of stuck_nauty two_points 0 = {0, 1}"
proof -
  have "0 < graph_order two_points" by (simp add: stuck_facts)
  from orbit_list_orbit_of(1)[OF stuck_facts(4) this] show ?thesis
    by (simp add: stuck_facts)
qed

lemma stuck_unreachable: "Suc 0 \<notin> gen_reach [] 0"
proof
  assume "Suc 0 \<in> gen_reach [] (0::nat)"
  then show False by (cases rule: gen_reach.cases) auto
qed

lemma traversal_prepare_endless:
  assumes r: "root < graph_order g"
    and ok: "graph_getcan_abort nty g = None"
    and wf: "wf_gens (graph_order g) (graph_aut_gens nty g)"
    and unc: "u \<in> orbit_of nty g root" "u \<notin> gen_reach (graph_aut_gens nty g) root"
  shows "traversal_prepare nty root g = None"
proof -
  from unc(1) orbit_list_orbit_of(1)[OF ok r] have "u \<in> set (orbit_list nty g root)" by simp
  from traversal_prepare_diverges[OF r ok wf this unc(2)] show ?thesis .
qed

text \<open>
  Claim C4 says that \<open>traversal_prepare\<close> aborts when the generators cannot cover the orbit
  of the root. On the graph of two vertices with a labeler that reports one orbit \<open>{0, 1}\<close>
  and no generator, vertex 1 is out of reach of the root 0, and \<open>traversal_prepare\<close> neither
  aborts nor returns: \<open>graph_getcan\<close> returns, the loop \<open>while(1)\<close> finds work left, sweeps
  over no generator, and starts again.
\<close>

theorem traversal_prepare_stuck:
  "orbit_list stuck_nauty two_points 0 = [0, 1]
   \<and> graph_aut_gens stuck_nauty two_points = []
   \<and> 1 \<notin> gen_reach (graph_aut_gens stuck_nauty two_points) 0
   \<and> graph_getcan_abort stuck_nauty two_points = None
   \<and> traversal_prepare stuck_nauty 0 two_points = None"
proof -
  have "traversal_prepare stuck_nauty 0 two_points = None"
    by (rule traversal_prepare_endless[where u = 1])
       (simp_all add: stuck_facts stuck_orbit stuck_unreachable wf_gens_def)
  then show ?thesis by (simp add: stuck_facts stuck_unreachable)
qed

text \<open>
  Claim C4 as amended. Let \<open>graph_getcan\<close> return for the graph (its two tests of the
  canonical form pass), let the root be a vertex of the graph, and let every generator be
  an array of \<open>n\<close> vertex numbers below \<open>n\<close>. When a vertex that the orbit array puts into
  the orbit of the root cannot be reached from the root with the generators,
  \<open>traversal_prepare\<close> does not end: it neither aborts nor returns a traversal.
\<close>

theorem traversal_prepare_uncovered:
  assumes "root < graph_order g"
    and "graph_getcan_abort nty g = None"
    and "wf_gens (graph_order g) (graph_aut_gens nty g)"
    and "u \<in> orbit_of nty g root" and "u \<notin> gen_reach (graph_aut_gens nty g) root"
  shows "traversal_prepare nty root g = None"
  using assms by (rule traversal_prepare_endless)

theorem traversal_prepare_uncovered_witness:
  "0 < graph_order two_points
   \<and> graph_getcan_abort stuck_nauty two_points = None
   \<and> wf_gens (graph_order two_points) (graph_aut_gens stuck_nauty two_points)
   \<and> 1 \<in> orbit_of stuck_nauty two_points 0
   \<and> 1 \<notin> gen_reach (graph_aut_gens stuck_nauty two_points) 0
   \<and> traversal_prepare stuck_nauty 0 two_points = None"
proof -
  have h: "0 < graph_order two_points"
    "graph_getcan_abort stuck_nauty two_points = None"
    "wf_gens (graph_order two_points) (graph_aut_gens stuck_nauty two_points)"
    "1 \<in> orbit_of stuck_nauty two_points 0"
    "1 \<notin> gen_reach (graph_aut_gens stuck_nauty two_points) 0"
    by (simp_all add: stuck_facts stuck_orbit stuck_unreachable wf_gens_def)
  from traversal_prepare_uncovered[OF h] h show ?thesis by simp
qed

section \<open>The truncated order of the automorphism group\<close>

text \<open>
  \<open>aut_order_trunc\<close> multiplies the index sequence up to its closing zero in arbitrary
  precision (\<open>mpz_mul_si\<close>), and returns the product when it is below 999999999 and
  999999999 otherwise. \<open>mpz_get_si\<close> gives the value of a number that fits a \<open>long\<close> (the low
  bits with the sign otherwise), and the cast to \<open>int\<close> keeps the low 32 bits.
\<close>

fun aut_mul :: "int \<Rightarrow> int list \<Rightarrow> int" where
  "aut_mul acc [] = acc"
| "aut_mul acc (a # as) = (if a = 0 then acc else aut_mul (acc * a) as)"

definition mpz_get_si :: "int \<Rightarrow> int" where
  "mpz_get_si x =
     (if x > 0 then (x mod 2 ^ 64) mod 2 ^ 63
      else if x < 0 then - 1 - ((\<bar>x\<bar> mod 2 ^ 64 - 1) mod 2 ^ 64) mod 2 ^ 63
      else 0)"

definition int_of_long :: "int \<Rightarrow> int" where
  "int_of_long x = (x + 2 ^ 31) mod 2 ^ 32 - 2 ^ 31"

definition aut_order_trunc :: "nauty \<Rightarrow> graph \<Rightarrow> int" where
  "aut_order_trunc nty g =
     (let aut_order = aut_mul 1 (graph_aut_idx nty g);
          aut_trunc = 999999999
      in if aut_order < aut_trunc then int_of_long (mpz_get_si aut_order) else aut_trunc)"

lemma aut_mul_prod:
  "list_all (\<lambda>a. a \<noteq> 0) idx \<Longrightarrow> aut_mul acc (idx @ 0 # rest) = acc * prod_list idx"
  by (induction idx arbitrary: acc) (auto simp: mult.assoc)

lemma prod_list_pos: "list_all (\<lambda>a. 0 < a) idx \<Longrightarrow> 0 < prod_list (idx :: int list)"
  by (induction idx) auto

lemma small_conv: "0 < x \<Longrightarrow> x < 999999999 \<Longrightarrow> int_of_long (mpz_get_si x) = x"
  by (simp add: int_of_long_def mpz_get_si_def)

text \<open>Thirteen isolated vertices of one colour: the automorphism group is the symmetric
  group, of order \<open>13!\<close>, with the stabilizer indices 13, 12, ..., 2.\<close>

definition thirteen_points :: graph where
  "thirteen_points = \<lparr>order = 13, edgebuf = [], lab = [0..<13],
      ptn = replicate 12 1 @ [0], can = None\<rparr>"

definition thirteen_points_nauty :: nauty where
  "thirteen_points_nauty n e l p =
     \<lparr>out_lab = [0..<13], out_ptn = replicate 13 0, out_orb = replicate 13 0,
      out_gen = map (\<lambda>i. [0..<i] @ [i + 1, i] @ [i + 2..<13]) (rev [0..<12]),
      out_idx = [13, 12, 11, 10, 9, 8, 7, 6, 5, 4, 3, 2], out_can = replicate 13 []\<rparr>"


text \<open>
  Claim C2 says that the stored value is \<open>min(|Aut(H)|, 2^31 - 1)\<close>. For the thirteen points
  the product of the indices is 6227020800, so the claim gives 2147483647; the program
  stores 999999999.
\<close>

theorem aut_order_trunc_thirteen:
  "graph_aut_idx thirteen_points_nauty thirteen_points
     = [13, 12, 11, 10, 9, 8, 7, 6, 5, 4, 3, 2, 0]
   \<and> prod_list [13, 12, 11, 10, 9, 8, 7, 6, 5, 4, 3, 2] = (6227020800 :: int)
   \<and> aut_order_trunc thirteen_points_nauty thirteen_points = 999999999
   \<and> min (6227020800 :: int) (2 ^ 31 - 1) = 2147483647"
  by code_simp

text \<open>
  Claim C2 as amended. For a graph whose index sequence consists of positive numbers, the
  value of \<open>aut_order_trunc\<close> is the smaller of their product and 999999999.
\<close>

theorem aut_order_trunc_cap:
  assumes "graph_aut_idx nty g = idx @ [0]" and "list_all (\<lambda>a. 0 < a) idx"
  shows "aut_order_trunc nty g = min (prod_list idx) 999999999"
proof -
  from assms(2) have nz: "list_all (\<lambda>a. a \<noteq> 0) idx" by (auto simp: list_all_iff)
  have m: "aut_mul 1 (graph_aut_idx nty g) = prod_list idx"
    using aut_mul_prod[OF nz, of 1 "[]"] assms(1) by simp
  show ?thesis
    using prod_list_pos[OF assms(2)]
    by (simp add: aut_order_trunc_def m Let_def small_conv min_def)
qed

theorem aut_order_trunc_cap_witness:
  "graph_aut_idx three_points_nauty three_points = [3, 2] @ [0]
   \<and> list_all (\<lambda>a. 0 < a) [3, 2 :: int]
   \<and> aut_order_trunc three_points_nauty three_points = min (prod_list [3, 2]) 999999999
   \<and> aut_order_trunc three_points_nauty three_points = 6"
proof -
  have h: "graph_aut_idx three_points_nauty three_points = [3, 2] @ [0]"
    "list_all (\<lambda>a. 0 < a) [3, 2 :: int]" by code_simp+
  from aut_order_trunc_cap[OF h] h show ?thesis by simp
qed

section \<open>Orbit cells and orbit minima\<close>

text \<open>
  \<open>graph_orbit_cells\<close> sorts the vertices by their entry in the orbit array (the indirect
  heapsort), then walks over the result: \<open>cell_end\<close> is the inner loop that finds the end
  \<open>i\<close> of the cell starting at \<open>last\<close>, and the cell \<open>p[last..i-1]\<close> is sorted by vertex
  number.
\<close>

function cell_end :: "nat list \<Rightarrow> nat list \<Rightarrow> nat \<Rightarrow> nat" where
  "cell_end c p i =
     (if i < length p then
        (if c ! (p ! (i - 1)) \<noteq> c ! (p ! i) then i else cell_end c p (i + 1))
      else i)"
  by pat_completeness auto
termination
  by (relation "measure (\<lambda>(c, p, i). length p - i)") auto

declare cell_end.simps [simp del]

lemma cell_end_ge: "i \<le> cell_end c p i"
proof (induction c p i rule: cell_end.induct)
  case (1 c p i)
  then show ?case by (subst cell_end.simps) auto
qed

lemma cell_end_le: "i \<le> length p \<Longrightarrow> cell_end c p i \<le> length p"
proof (induction c p i rule: cell_end.induct)
  case (1 c p i)
  then show ?case by (subst cell_end.simps) auto
qed

definition sort_cell :: "nat list \<Rightarrow> nat \<Rightarrow> nat \<Rightarrow> nat list" where
  "sort_cell p lst i = take lst p @ heapsort_int (take (i - lst) (drop lst p)) @ drop i p"

lemma sort_cell_length [simp]: "lst \<le> i \<Longrightarrow> i \<le> length p \<Longrightarrow> length (sort_cell p lst i) = length p"
  by (simp add: sort_cell_def heapsort_int_def)

function sort_cells :: "nat list \<Rightarrow> nat list \<Rightarrow> nat \<Rightarrow> nat list" where
  "sort_cells c p lst =
     (if lst < length p then
        (let i = cell_end c p (lst + 1)
         in sort_cells c (sort_cell p lst i) i)
      else p)"
  by pat_completeness auto
termination
proof (relation "measure (\<lambda>(c, p, lst). length p - lst)")
  show "wf (measure (\<lambda>(c, p, lst). length p - lst))" by simp
next
  fix c p :: "nat list" and lst i :: nat
  assume l: "lst < length p" and i: "i = cell_end c p (lst + 1)"
  have "lst + 1 \<le> i" unfolding i by (rule cell_end_ge)
  moreover have "i \<le> length p" unfolding i using l by (intro cell_end_le) simp
  ultimately show "((c, sort_cell p lst i, i), (c, p, lst))
      \<in> measure (\<lambda>(c, p, lst). length p - lst)"
    using l by simp
qed

declare sort_cells.simps [simp del]

definition graph_orbit_cells :: "nauty \<Rightarrow> graph \<Rightarrow> nat list" where
  "graph_orbit_cells nty g =
     (let n = order (graph_getcan nty g);
          p = heapsort_int_indirect (graph_orbits nty g) [0..<n]
      in sort_cells (graph_orbits nty g) p 0)"

text \<open>
  \<open>orbit_min_ind\<close>: for the first vertex \<open>p[i]\<close> of each run of equal orbit entries the
  indicator is set, at \<open>relabel[p[i]]\<close> when a relabeling is given; \<open>run_end\<close> is the inner loop
  that finds the next run.
\<close>

function run_end :: "nat \<Rightarrow> nat list \<Rightarrow> nat list \<Rightarrow> nat \<Rightarrow> nat \<Rightarrow> nat" where
  "run_end n c p i j =
     (if j < n \<and> c ! (p ! i) = c ! (p ! j) then run_end n c p i (j + 1) else j)"
  by pat_completeness auto
termination
  by (relation "measure (\<lambda>(n, c, p, i, j). n - j)") auto

declare run_end.simps [simp del]

lemma run_end_gt: "j \<le> run_end n c p i j"
proof (induction n c p i j rule: run_end.induct)
  case (1 n c p i j)
  then show ?case by (subst run_end.simps) auto
qed

definition relabelled :: "nat list option \<Rightarrow> nat \<Rightarrow> nat" where
  "relabelled relabel v = (case relabel of None \<Rightarrow> v | Some r \<Rightarrow> r ! v)"

function orbit_min_loop ::
  "nat \<Rightarrow> nat list option \<Rightarrow> nat list \<Rightarrow> nat list \<Rightarrow> int list \<Rightarrow> nat \<Rightarrow> int list" where
  "orbit_min_loop n relabel c p ind i =
     (if i < n then
        orbit_min_loop n relabel c p (ind[relabelled relabel (p ! i) := 1])
          (run_end n c p i (i + 1))
      else ind)"
  by pat_completeness auto
termination
proof (relation "measure (\<lambda>(n, relabel, c, p, ind, i). n - i)")
  show "wf (measure (\<lambda>(n, relabel, c, p, ind, i). n - i))" by simp
next
  fix n :: nat and relabel :: "nat list option" and c p :: "nat list" and ind :: "int list" and i :: nat
  assume "i < n"
  moreover have "i + 1 \<le> run_end n c p i (i + 1)" by (rule run_end_gt)
  ultimately show "((n, relabel, c, p, ind[relabelled relabel (p ! i) := 1], run_end n c p i (i + 1)),
      (n, relabel, c, p, ind, i)) \<in> measure (\<lambda>(n, relabel, c, p, ind, i). n - i)"
    by simp
qed

declare orbit_min_loop.simps [simp del]

definition orbit_min_ind :: "nauty \<Rightarrow> graph \<Rightarrow> nat list option \<Rightarrow> int list" where
  "orbit_min_ind nty g relabel =
     (let n = graph_order g;
          p = graph_orbit_cells nty g;
          c = graph_orbits nty g
      in orbit_min_loop n relabel c p (replicate n 0) 0)"


subsection \<open>The cells are in order\<close>

definition lexlt :: "nat list \<Rightarrow> nat \<Rightarrow> nat \<Rightarrow> bool" where
  "lexlt c u v = (c ! u < c ! v \<or> (c ! u = c ! v \<and> u < v))"

lemma cell_end_props:
  assumes "lst < i0" "i0 \<le> length p"
    and "\<forall>k. lst < k \<and> k < i0 \<longrightarrow> c ! (p ! (k - 1)) = c ! (p ! k)"
  shows "i0 \<le> cell_end c p i0 \<and> cell_end c p i0 \<le> length p
     \<and> (\<forall>k. lst < k \<and> k < cell_end c p i0 \<longrightarrow> c ! (p ! (k - 1)) = c ! (p ! k))
     \<and> (cell_end c p i0 = length p \<or> c ! (p ! (cell_end c p i0 - 1)) \<noteq> c ! (p ! cell_end c p i0))"
  using assms
proof (induction c p i0 rule: cell_end.induct)
  case (1 c p i)
  show ?case
  proof (cases "i < length p \<and> c ! (p ! (i - 1)) = c ! (p ! i)")
    case False
    then have "cell_end c p i = i" by (subst cell_end.simps) auto
    with False "1.prems" show ?thesis by auto
  next
    case True
    then have e: "cell_end c p i = cell_end c p (i + 1)" by (subst cell_end.simps) auto
    have "\<forall>k. lst < k \<and> k < i + 1 \<longrightarrow> c ! (p ! (k - 1)) = c ! (p ! k)"
      using "1.prems"(3) True by (auto simp: less_Suc_eq)
    with "1.IH"[of] True "1.prems" have
      "i + 1 \<le> cell_end c p (i + 1) \<and> cell_end c p (i + 1) \<le> length p
     \<and> (\<forall>k. lst < k \<and> k < cell_end c p (i + 1) \<longrightarrow> c ! (p ! (k - 1)) = c ! (p ! k))
     \<and> (cell_end c p (i + 1) = length p
          \<or> c ! (p ! (cell_end c p (i + 1) - 1)) \<noteq> c ! (p ! cell_end c p (i + 1)))"
      by auto
    then show ?thesis unfolding e by auto
  qed
qed

lemma run_const:
  assumes "\<forall>k::nat. lst < k \<and> k < i \<longrightarrow> f (k - 1) = (f k :: nat)" "lst \<le> k" "k < i"
  shows "f k = f lst"
proof -
  have "lst \<le> m \<longrightarrow> m < i \<longrightarrow> f m = f lst" for m
  proof (induction m)
    case 0
    then show ?case by simp
  next
    case (Suc m)
    show ?case
    proof (intro impI)
      assume a: "lst \<le> Suc m" "Suc m < i"
      show "f (Suc m) = f lst"
      proof (cases "lst = Suc m")
        case True
        then show ?thesis by simp
      next
        case False
        with a have b: "lst \<le> m" "m < i" "lst < Suc m" by auto
        from assms(1) b(3) a(2) have "f (Suc m - 1) = f (Suc m)" by blast
        then have "f (Suc m) = f m" by (simp only: diff_Suc_1)
        also from Suc.IH b(1,2) have "f m = f lst" by blast
        finally show ?thesis .
      qed
    qed
  qed
  with assms(2,3) show ?thesis by blast
qed

lemma sorted_distinct_lexlt:
  assumes "sorted xs" "distinct xs" "\<forall>x\<in>set xs. c ! x = (a::nat)"
  shows "sorted_wrt (lexlt c) xs"
proof -
  from assms(1,2) have "sorted_wrt (<) xs" by (simp add: strict_sorted_iff)
  then show ?thesis
    by (rule sorted_wrt_mono_rel[rotated]) (use assms(3) in \<open>auto simp: lexlt_def\<close>)
qed

lemma sort_cell_props:
  assumes len: "i \<le> length p" "lst < i"
    and d: "distinct p"
    and keys: "sorted (map (\<lambda>v. c ! v) p)"
    and pre: "sorted_wrt (lexlt c) (take lst p)"
    and bd: "lst = 0 \<or> c ! (p ! (lst - 1)) \<noteq> c ! (p ! lst)"
    and run: "\<forall>k. lst < k \<and> k < i \<longrightarrow> c ! (p ! (k - 1)) = c ! (p ! k)"
  shows "mset (sort_cell p lst i) = mset p"
    "map (\<lambda>v. c ! v) (sort_cell p lst i) = map (\<lambda>v. c ! v) p"
    "sorted_wrt (lexlt c) (take i (sort_cell p lst i))"
proof -
  let ?cell = "take (i - lst) (drop lst p)"
  let ?hs = "heapsort_int ?cell"
  have hs: "sorted ?hs" "mset ?hs = mset ?cell"
    using heapsort_key_sorts[of "\<lambda>v. v" ?cell] by (simp_all add: heapsort_int_def)
  have lc: "length ?cell = i - lst" using len by simp
  have lh: "length ?hs = i - lst" using lc by (simp add: heapsort_int_def)
  have p3: "take lst p @ ?cell @ drop i p = p"
  proof -
    have "drop lst p = take (i - lst) (drop lst p) @ drop (i - lst) (drop lst p)"
      by (simp only: append_take_drop_id)
    moreover have "drop (i - lst) (drop lst p) = drop i p" using len by simp
    ultimately have "drop lst p = ?cell @ drop i p" by simp
    then have "take lst p @ ?cell @ drop i p = take lst p @ drop lst p" by simp
    then show ?thesis by (simp only: append_take_drop_id)
  qed
  show m: "mset (sort_cell p lst i) = mset p"
  proof -
    have "mset (sort_cell p lst i) = mset (take lst p @ ?cell @ drop i p)"
      using hs(2) by (simp add: sort_cell_def)
    then show ?thesis by (simp only: p3)
  qed
  have ck: "c ! x = c ! (p ! lst)" if "x \<in> set ?cell" for x
  proof -
    from that obtain k where k: "k < i - lst" "x = ?cell ! k" using lc by (auto simp: in_set_conv_nth)
    then have "x = p ! (lst + k)" using len by simp
    moreover have "c ! (p ! (lst + k)) = c ! (p ! lst)"
      using run_const[of lst i "\<lambda>k. c ! (p ! k)" "lst + k"] run k by simp
    ultimately show ?thesis by simp
  qed
  have sh: "set ?hs = set ?cell" using hs(2) by (rule mset_eq_setD)
  have "replicate (length (map (\<lambda>v. c ! v) ?hs)) (c ! (p ! lst)) = map (\<lambda>v. c ! v) ?hs"
    by (rule replicate_length_same) (use ck sh in auto)
  moreover
  have "replicate (length (map (\<lambda>v. c ! v) ?cell)) (c ! (p ! lst)) = map (\<lambda>v. c ! v) ?cell"
    by (rule replicate_length_same) (use ck in auto)
  ultimately have "map (\<lambda>v. c ! v) ?hs = map (\<lambda>v. c ! v) ?cell"
    using lh lc by (simp del: replicate_eq_replicate)
  then have "map (\<lambda>v. c ! v) (sort_cell p lst i)
      = map (\<lambda>v. c ! v) (take lst p @ ?cell @ drop i p)"
    by (simp add: sort_cell_def)
  then show "map (\<lambda>v. c ! v) (sort_cell p lst i) = map (\<lambda>v. c ! v) p"
    by (simp only: p3)
  have dc: "distinct ?cell" using d by (simp add: distinct_take distinct_drop)
  then have dh: "distinct ?hs" using mset_eq_imp_distinct_iff[OF hs(2)] by simp
  have s2: "sorted_wrt (lexlt c) ?hs"
    using hs(1) dh ck sh by (intro sorted_distinct_lexlt[where a="c ! (p ! lst)"]) auto
  have cross: "lexlt c u v" if u: "u \<in> set (take lst p)" and v: "v \<in> set ?hs" for u v
  proof -
    from u obtain k where k: "k < lst" "u = p ! k" using len by (auto simp: in_set_conv_nth)
    with bd have b: "c ! (p ! (lst - 1)) \<noteq> c ! (p ! lst)" by auto
    have "c ! (p ! k) \<le> c ! (p ! (lst - 1))"
      using keys k len sorted_nth_mono[of "map (\<lambda>v. c ! v) p" k "lst - 1"] by simp
    moreover have "c ! (p ! (lst - 1)) \<le> c ! (p ! lst)"
      using keys k len sorted_nth_mono[of "map (\<lambda>v. c ! v) p" "lst - 1" lst] by simp
    ultimately have "c ! u < c ! (p ! lst)" using b k by simp
    then show ?thesis using ck[of v] v sh by (simp add: lexlt_def)
  qed
  have "take i (sort_cell p lst i) = take lst p @ ?hs"
    using len lh by (simp add: sort_cell_def)
  then show "sorted_wrt (lexlt c) (take i (sort_cell p lst i))"
    using pre s2 cross by (simp add: sorted_wrt_append)
qed

lemma sort_cells_props:
  assumes "distinct p" "sorted (map (\<lambda>v. c ! v) p)" "sorted_wrt (lexlt c) (take lst p)"
    "lst \<le> length p" "lst = 0 \<or> lst = length p \<or> c ! (p ! (lst - 1)) \<noteq> c ! (p ! lst)"
  shows "sorted_wrt (lexlt c) (sort_cells c p lst) \<and> mset (sort_cells c p lst) = mset p"
  using assms
proof (induction c p lst rule: sort_cells.induct)
  case (1 c p lst)
  show ?case
  proof (cases "lst < length p")
    case False
    then have "sort_cells c p lst = p" by (subst sort_cells.simps) simp
    with False "1.prems" show ?thesis by simp
  next
    case True
    let ?i = "cell_end c p (lst + 1)"
    let ?p = "sort_cell p lst ?i"
    from cell_end_props[of lst "lst + 1" p c] True
    have ce: "lst + 1 \<le> ?i" "?i \<le> length p"
      and run: "\<forall>k. lst < k \<and> k < ?i \<longrightarrow> c ! (p ! (k - 1)) = c ! (p ! k)"
      and ed: "?i = length p \<or> c ! (p ! (?i - 1)) \<noteq> c ! (p ! ?i)"
      by auto
    have li: "lst < ?i" using ce(1) by simp
    have bd: "lst = 0 \<or> c ! (p ! (lst - 1)) \<noteq> c ! (p ! lst)" using "1.prems"(5) True by auto
    note sc = sort_cell_props[OF ce(2) li "1.prems"(1,2,3) bd run]
    have l': "length ?p = length p" using ce li by simp
    have d': "distinct ?p" using mset_eq_imp_distinct_iff[OF sc(1)] "1.prems"(1) by simp
    have k': "sorted (map (\<lambda>v. c ! v) ?p)" using sc(2) "1.prems"(2) by simp
    have nk: "c ! (?p ! k) = c ! (p ! k)" if "k < length p" for k
    proof -
      have "map (\<lambda>v. c ! v) ?p ! k = map (\<lambda>v. c ! v) p ! k" using sc(2) by simp
      then show ?thesis using that l' by simp
    qed
    have b': "?i = 0 \<or> ?i = length ?p \<or> c ! (?p ! (?i - 1)) \<noteq> c ! (?p ! ?i)"
    proof (cases "?i = length p")
      case True
      then show ?thesis using l' by simp
    next
      case False
      with ce have "?i < length p" "?i - 1 < length p" by auto
      with ed False show ?thesis using nk by simp
    qed
    have il: "?i \<le> length ?p" using ce l' by simp
    from "1.IH"[OF True refl d' k' sc(3) il b']
    have "sorted_wrt (lexlt c) (sort_cells c ?p ?i) \<and> mset (sort_cells c ?p ?i) = mset ?p" .
    moreover have "sort_cells c p lst = sort_cells c ?p ?i"
      using True by (subst sort_cells.simps) (simp add: Let_def)
    ultimately show ?thesis using sc(1) by simp
  qed
qed

lemma graph_orbit_cells_props:
  "sorted_wrt (lexlt (graph_orbits nty g)) (graph_orbit_cells nty g)"
  "mset (graph_orbit_cells nty g) = mset [0..<graph_order g]"
proof -
  let ?c = "graph_orbits nty g" and ?n = "graph_order g"
  let ?p = "heapsort_int_indirect ?c [0..<?n]"
  have hs: "sorted (map (\<lambda>v. ?c ! v) ?p)" "mset ?p = mset [0..<?n]"
    using heapsort_key_sorts[of "\<lambda>v. ?c ! v" "[0..<?n]"] by (simp_all add: heapsort_int_indirect_def)
  have d: "distinct ?p" using mset_eq_imp_distinct_iff[OF hs(2)] by simp
  have n: "order (graph_getcan nty g) = ?n"
    by (simp add: graph_getcan_def graph_order_def Let_def split: option.splits)
  from sort_cells_props[OF d hs(1), of 0]
  have "sorted_wrt (lexlt ?c) (sort_cells ?c ?p 0) \<and> mset (sort_cells ?c ?p 0) = mset ?p" by simp
  then show "sorted_wrt (lexlt ?c) (graph_orbit_cells nty g)"
    "mset (graph_orbit_cells nty g) = mset [0..<?n]"
    using hs(2) by (simp_all add: graph_orbit_cells_def Let_def n)
qed

lemma run_end_props:
  assumes "i < j0" "j0 \<le> n" "\<forall>k. i \<le> k \<and> k < j0 \<longrightarrow> c ! (p ! k) = c ! (p ! i)"
  shows "j0 \<le> run_end n c p i j0 \<and> run_end n c p i j0 \<le> n
     \<and> (\<forall>k. i \<le> k \<and> k < run_end n c p i j0 \<longrightarrow> c ! (p ! k) = c ! (p ! i))
     \<and> (run_end n c p i j0 = n \<or> c ! (p ! run_end n c p i j0) \<noteq> c ! (p ! i))"
  using assms
proof (induction n c p i j0 rule: run_end.induct)
  case (1 n c p i j)
  show ?case
  proof (cases "j < n \<and> c ! (p ! i) = c ! (p ! j)")
    case False
    then have r: "run_end n c p i j = j" by (subst run_end.simps) auto
    from False "1.prems"(2) have "j = n \<or> c ! (p ! j) \<noteq> c ! (p ! i)" by auto
    then show ?thesis unfolding r using "1.prems"(2,3) by blast
  next
    case True
    then have e: "run_end n c p i j = run_end n c p i (j + 1)" by (subst run_end.simps) auto
    have a3: "\<forall>k. i \<le> k \<and> k < j + 1 \<longrightarrow> c ! (p ! k) = c ! (p ! i)"
    proof (intro allI impI)
      fix k assume "i \<le> k \<and> k < j + 1"
      then have "k < j \<or> k = j" by auto
      then show "c ! (p ! k) = c ! (p ! i)"
      proof
        assume "k < j"
        with \<open>i \<le> k \<and> k < j + 1\<close> "1.prems"(3) show ?thesis by blast
      next
        assume "k = j"
        with True show ?thesis by simp
      qed
    qed
    have a1: "i < j + 1" using "1.prems"(1) by simp
    have a2: "j + 1 \<le> n" using True by simp
    from "1.IH"[OF True a1 a2 a3] have
      "j + 1 \<le> run_end n c p i (j + 1) \<and> run_end n c p i (j + 1) \<le> n
     \<and> (\<forall>k. i \<le> k \<and> k < run_end n c p i (j + 1) \<longrightarrow> c ! (p ! k) = c ! (p ! i))
     \<and> (run_end n c p i (j + 1) = n \<or> c ! (p ! run_end n c p i (j + 1)) \<noteq> c ! (p ! i))" .
    then have "j \<le> run_end n c p i (j + 1) \<and> run_end n c p i (j + 1) \<le> n
     \<and> (\<forall>k. i \<le> k \<and> k < run_end n c p i (j + 1) \<longrightarrow> c ! (p ! k) = c ! (p ! i))
     \<and> (run_end n c p i (j + 1) = n \<or> c ! (p ! run_end n c p i (j + 1)) \<noteq> c ! (p ! i))"
      using add_leD1 by blast
    then show ?thesis unfolding e .
  qed
qed

definition run_start :: "nat list \<Rightarrow> nat list \<Rightarrow> nat \<Rightarrow> bool" where
  "run_start c p k = (k = 0 \<or> c ! (p ! (k - 1)) \<noteq> c ! (p ! k))"

lemma orbit_min_loop_props:
  assumes "i \<le> n" "i = n \<or> run_start c p i" "\<forall>k<n. relabelled relabel (p ! k) < length ind"
  shows "length (orbit_min_loop n relabel c p ind i) = length ind \<and>
     (\<forall>x<length ind. orbit_min_loop n relabel c p ind i ! x =
        (if \<exists>k. i \<le> k \<and> k < n \<and> run_start c p k \<and> x = relabelled relabel (p ! k) then 1
         else ind ! x))"
  using assms
proof (induction n relabel c p ind i rule: orbit_min_loop.induct)
  case (1 n relabel c p ind i)
  show ?case
  proof (cases "i < n")
    case False
    then have "orbit_min_loop n relabel c p ind i = ind" by (subst orbit_min_loop.simps) simp
    with False show ?thesis by auto
  next
    case True
    let ?j = "run_end n c p i (i + 1)"
    let ?ind = "ind[relabelled relabel (p ! i) := 1]"
    have h3: "\<forall>k. i \<le> k \<and> k < i + 1 \<longrightarrow> c ! (p ! k) = c ! (p ! i)"
    proof (intro allI impI)
      fix k assume "i \<le> k \<and> k < i + 1"
      then have "k = i" by simp
      then show "c ! (p ! k) = c ! (p ! i)" by simp
    qed
    have h1: "i < i + 1" by simp
    have h2: "i + 1 \<le> n" using True by simp
    note rp = run_end_props[OF h1 h2 h3]
    have re: "i + 1 \<le> ?j" "?j \<le> n" using rp by blast+
    have run: "c ! (p ! k) = c ! (p ! i)" if "i \<le> k" "k < ?j" for k using rp that by blast
    have ed: "?j = n \<or> c ! (p ! ?j) \<noteq> c ! (p ! i)" using rp by blast
    have rs: "?j = n \<or> run_start c p ?j"
    proof (cases "?j = n")
      case False
      have "i \<le> ?j - 1" "?j - 1 < ?j" using re(1) by simp_all
      from run[OF this] ed False have "c ! (p ! (?j - 1)) \<noteq> c ! (p ! ?j)" by simp
      then show ?thesis by (simp add: run_start_def)
    qed simp
    have ri: "run_start c p i" using "1.prems"(2) True by simp
    have nors: "\<not> run_start c p k" if "i < k" "k < ?j" for k
    proof -
      have "c ! (p ! k) = c ! (p ! i)" using run[of k] that by simp
      moreover have "c ! (p ! (k - 1)) = c ! (p ! i)" using run[of "k - 1"] that by simp
      ultimately show ?thesis using that(1) by (simp add: run_start_def)
    qed
    have e: "orbit_min_loop n relabel c p ind i = orbit_min_loop n relabel c p ?ind ?j"
      using True by (subst orbit_min_loop.simps) simp
    have pr: "\<forall>k<n. relabelled relabel (p ! k) < length ?ind" using "1.prems"(3) by simp
    define A where "A x = (\<exists>k. ?j \<le> k \<and> k < n \<and> run_start c p k \<and> x = relabelled relabel (p ! k))" for x
    define B where "B x = (\<exists>k. i \<le> k \<and> k < n \<and> run_start c p k \<and> x = relabelled relabel (p ! k))" for x
    from "1.IH"[OF True re(2) rs pr]
    have IH1: "length (orbit_min_loop n relabel c p ?ind ?j) = length ind"
      and IH2: "\<forall>x<length ind. orbit_min_loop n relabel c p ?ind ?j ! x = (if A x then 1 else ?ind ! x)"
      unfolding A_def by simp_all
    have AB: "B x" if "A x" for x
    proof -
      from that obtain k where "?j \<le> k" "k < n" "run_start c p k" "x = relabelled relabel (p ! k)"
        unfolding A_def by blast
      moreover from this re(1) have "i \<le> k" by simp
      ultimately show ?thesis unfolding B_def by blast
    qed
    have iB: "B (relabelled relabel (p ! i))"
      unfolding B_def using True ri by (intro exI[of _ i]) simp
    have BA: "A x \<or> x = relabelled relabel (p ! i)" if "B x" for x
    proof -
      from that obtain k where k: "i \<le> k" "k < n" "run_start c p k" "x = relabelled relabel (p ! k)"
        unfolding B_def by blast
      show ?thesis
      proof (cases "k = i")
        case True
        with k(4) show ?thesis by simp
      next
        case False
        with k(1) have "i < k" by simp
        with nors[of k] k(3) have "?j \<le> k" by (cases "k < ?j") auto
        with k have "A x" unfolding A_def by blast
        then show ?thesis by simp
      qed
    qed
    have "orbit_min_loop n relabel c p ?ind ?j ! x = (if B x then 1 else ind ! x)"
      if x: "x < length ind" for x
    proof (cases "A x")
      case True
      with AB[OF True] IH2 x show ?thesis by simp
    next
      case nA: False
      show ?thesis
      proof (cases "x = relabelled relabel (p ! i)")
        case True
        with nA iB IH2 x show ?thesis by simp
      next
        case False
        with nA BA[of x] have "\<not> B x" by blast
        with nA False IH2 x show ?thesis by simp
      qed
    qed
    then show ?thesis unfolding e B_def using IH1 by simp
  qed
qed

definition orbit_minimum :: "nat list \<Rightarrow> nat \<Rightarrow> nat \<Rightarrow> bool" where
  "orbit_minimum c n u = (u < n \<and> list_all (\<lambda>w. c ! w = c ! u \<longrightarrow> u \<le> w) [0..<n])"

lemma run_start_minimum:
  assumes s: "sorted_wrt (lexlt c) p" and m: "mset p = mset [0..<n]" and k: "k < n"
  shows "run_start c p k = orbit_minimum c n (p ! k)"
proof -
  have len: "length p = n" using arg_cong[OF m, of size] by simp
  have st: "set p = {0..<n}" using mset_eq_setD[OF m] by simp
  have lx: "\<And>a b. a < b \<Longrightarrow> b < n \<Longrightarrow> lexlt c (p ! a) (p ! b)"
    using s len by (simp add: sorted_wrt_iff_nth_less)
  have le: "c ! (p ! a) \<le> c ! (p ! b)" if "a \<le> b" "b < n" for a b
    using lx[of a b] that by (cases "a = b") (auto simp: lexlt_def)
  have pk: "p ! k < n" using k len st nth_mem[of k p] by auto
  show ?thesis
  proof
    assume rs: "run_start c p k"
    have "p ! k \<le> w" if w: "w < n" "c ! w = c ! (p ! k)" for w
    proof -
      from w(1) st have "w \<in> set p" by simp
      then obtain j where j: "j < n" "p ! j = w" unfolding len[symmetric] by (auto simp: in_set_conv_nth)
      show ?thesis
      proof (cases "j < k")
        case True
        then have "c ! (p ! j) \<le> c ! (p ! (k - 1))" "c ! (p ! (k - 1)) \<le> c ! (p ! k)"
          using le[of j "k - 1"] le[of "k - 1" k] k by auto
        with w j have "c ! (p ! (k - 1)) = c ! (p ! k)" by simp
        with rs True show ?thesis by (simp add: run_start_def)
      next
        case False
        show ?thesis
        proof (cases "j = k")
          case True
          with j show ?thesis by simp
        next
          case F: False
          with False have "k < j" by simp
          from lx[OF this j(1)] w j show ?thesis by (simp add: lexlt_def)
        qed
      qed
    qed
    then show "orbit_minimum c n (p ! k)" using pk by (simp add: orbit_minimum_def list_all_iff)
  next
    assume om: "orbit_minimum c n (p ! k)"
    show "run_start c p k"
    proof (rule ccontr)
      assume "\<not> run_start c p k"
      then have k0: "k \<noteq> 0" and eq: "c ! (p ! (k - 1)) = c ! (p ! k)" by (auto simp: run_start_def)
      from lx[of "k - 1" k] k k0 eq have lt: "p ! (k - 1) < p ! k" by (simp add: lexlt_def)
      have "p ! (k - 1) < n" using k len st nth_mem[of "k - 1" p] by auto
      with om eq have "p ! k \<le> p ! (k - 1)" by (simp add: orbit_minimum_def list_all_iff)
      with lt show False by simp
    qed
  qed
qed

lemma relabelled_perm:
  assumes "case relabel of None \<Rightarrow> True | Some r \<Rightarrow> is_perm n r"
  shows "\<And>u. u < n \<Longrightarrow> relabelled relabel u < n"
    "\<And>u w. u < n \<Longrightarrow> w < n \<Longrightarrow> relabelled relabel u = relabelled relabel w \<Longrightarrow> u = w"
proof -
  show "relabelled relabel u < n" if "u < n" for u
    using assms that by (cases relabel) (auto simp: relabelled_def dest: is_perm_nth)
  show "u = w" if "u < n" "w < n" "relabelled relabel u = relabelled relabel w" for u w
  proof (cases relabel)
    case None
    with that show ?thesis by (simp add: relabelled_def)
  next
    case (Some r)
    with assms have "distinct r" "length r = n" by (auto simp: is_perm_def)
    with that Some show ?thesis by (simp add: relabelled_def nth_eq_iff_index_eq)
  qed
qed

lemma orbit_minimum_unique:
  assumes "orbit_minimum c n u" "orbit_minimum c n w" "c ! u = c ! w"
  shows "u = w"
proof -
  from assms have "u \<le> w" "w \<le> u" by (auto simp: orbit_minimum_def list_all_iff)
  then show ?thesis by simp
qed

lemma orbit_minimum_exists:
  assumes "u < n"
  shows "\<exists>m. orbit_minimum c n m \<and> c ! m = c ! u"
proof -
  let ?m = "LEAST w. w < n \<and> c ! w = c ! u"
  have "u < n \<and> c ! u = c ! u" using assms by simp
  then have "?m < n \<and> c ! ?m = c ! u" by (rule LeastI)
  moreover have "?m \<le> w" if "w < n" "c ! w = c ! u" for w
  proof -
    from that have "w < n \<and> c ! w = c ! u" by simp
    then show ?thesis by (rule Least_le)
  qed
  ultimately have "orbit_minimum c n ?m \<and> c ! ?m = c ! u"
    by (simp add: orbit_minimum_def list_all_iff)
  then show ?thesis by blast
qed

lemma orbit_min_ind_marks:
  assumes rl: "case relabel of None \<Rightarrow> True | Some r \<Rightarrow> is_perm (graph_order g) r"
  shows "length (orbit_min_ind nty g relabel) = graph_order g"
    "\<And>x. x < graph_order g \<Longrightarrow> orbit_min_ind nty g relabel ! x =
        (if \<exists>u. x = relabelled relabel u \<and> orbit_minimum (graph_orbits nty g) (graph_order g) u
         then 1 else 0)"
proof -
  let ?n = "graph_order g" and ?c = "graph_orbits nty g" and ?p = "graph_orbit_cells nty g"
  note cp = graph_orbit_cells_props[where nty = nty and g = g]
  have len: "length ?p = ?n" using arg_cong[OF cp(2), of size] by simp
  have st: "set ?p = {0..<?n}" using mset_eq_setD[OF cp(2)] by simp
  note rp = relabelled_perm[OF rl]
  have pk: "?p ! k < ?n" if "k < ?n" for k using that len st nth_mem[of k ?p] by auto
  have h3: "\<forall>k<?n. relabelled relabel (?p ! k) < length (replicate ?n (0::int))"
    using pk rp(1) by simp
  have h2: "0 = ?n \<or> run_start ?c ?p 0" by (simp add: run_start_def)
  have h1: "0 \<le> ?n" by simp
  note lp = orbit_min_loop_props[OF h1 h2 h3]
  have e: "orbit_min_ind nty g relabel = orbit_min_loop ?n relabel ?c ?p (replicate ?n 0) 0"
    by (simp add: orbit_min_ind_def Let_def)
  show "length (orbit_min_ind nty g relabel) = ?n" unfolding e using lp by simp
  show "orbit_min_ind nty g relabel ! x =
        (if \<exists>u. x = relabelled relabel u \<and> orbit_minimum ?c ?n u then 1 else 0)"
    if x: "x < ?n" for x
  proof -
    have a: "orbit_min_loop ?n relabel ?c ?p (replicate ?n 0) 0 ! x =
        (if \<exists>k. 0 \<le> k \<and> k < ?n \<and> run_start ?c ?p k \<and> x = relabelled relabel (?p ! k) then 1
         else replicate ?n 0 ! x)"
      using lp x by simp
    have b: "(\<exists>k. 0 \<le> k \<and> k < ?n \<and> run_start ?c ?p k \<and> x = relabelled relabel (?p ! k))
        = (\<exists>u. x = relabelled relabel u \<and> orbit_minimum ?c ?n u)"
    proof
      assume "\<exists>k. 0 \<le> k \<and> k < ?n \<and> run_start ?c ?p k \<and> x = relabelled relabel (?p ! k)"
      then obtain k where k: "k < ?n" "run_start ?c ?p k" "x = relabelled relabel (?p ! k)" by blast
      from run_start_minimum[OF cp k(1)] k(2) have "orbit_minimum ?c ?n (?p ! k)" by simp
      with k(3) show "\<exists>u. x = relabelled relabel u \<and> orbit_minimum ?c ?n u" by blast
    next
      assume "\<exists>u. x = relabelled relabel u \<and> orbit_minimum ?c ?n u"
      then obtain u where u: "x = relabelled relabel u" "orbit_minimum ?c ?n u" by blast
      then have "u < ?n" by (simp add: orbit_minimum_def)
      then have "u \<in> set ?p" using st by simp
      then obtain k where k: "k < ?n" "?p ! k = u" unfolding len[symmetric] by (auto simp: in_set_conv_nth)
      from run_start_minimum[OF cp k(1)] k(2) u(2) have "run_start ?c ?p k" by simp
      with k u(1) show "\<exists>k. 0 \<le> k \<and> k < ?n \<and> run_start ?c ?p k \<and> x = relabelled relabel (?p ! k)"
        by blast
    qed
    show ?thesis unfolding e a b using x by simp
  qed
qed


text \<open>
  Claim C7. For every graph, and every relabeling that is absent or a permutation of the
  vertices, the vector of \<open>orbit_min_ind\<close> has one entry per vertex; the entry at the image
  of \<open>u\<close> is 1 exactly when \<open>u\<close> is the least vertex of its orbit (the vertices with the
  same entry in the labeler's orbit array), and 0 otherwise; so every orbit has exactly one
  vertex whose bit is set.
\<close>

theorem orbit_min_ind_one_per_orbit:
  assumes rl: "case relabel of None \<Rightarrow> True | Some r \<Rightarrow> is_perm (graph_order g) r"
  shows "length (orbit_min_ind nty g relabel) = graph_order g \<and>
    (\<forall>u<graph_order g. orbit_min_ind nty g relabel ! relabelled relabel u =
        (if orbit_minimum (graph_orbits nty g) (graph_order g) u then 1 else 0)) \<and>
    (\<forall>u<graph_order g. \<exists>!w. w < graph_order g \<and> graph_orbits nty g ! w = graph_orbits nty g ! u
        \<and> orbit_min_ind nty g relabel ! relabelled relabel w = 1)"
proof -
  let ?n = "graph_order g" and ?c = "graph_orbits nty g"
  note mk = orbit_min_ind_marks[OF rl, where nty = nty]
  note rp = relabelled_perm[OF rl]
  have bit: "orbit_min_ind nty g relabel ! relabelled relabel u =
        (if orbit_minimum ?c ?n u then 1 else 0)" if u: "u < ?n" for u
  proof -
    have "(\<exists>w. relabelled relabel u = relabelled relabel w \<and> orbit_minimum ?c ?n w)
        = orbit_minimum ?c ?n u"
    proof
      assume "\<exists>w. relabelled relabel u = relabelled relabel w \<and> orbit_minimum ?c ?n w"
      then obtain w where w: "relabelled relabel u = relabelled relabel w" "orbit_minimum ?c ?n w"
        by blast
      then have "w < ?n" by (simp add: orbit_minimum_def)
      from rp(2)[OF u this w(1)] w(2) show "orbit_minimum ?c ?n u" by simp
    qed blast
    with mk(2)[OF rp(1)[OF u]] show ?thesis by simp
  qed
  have one: "\<exists>!w. w < ?n \<and> ?c ! w = ?c ! u \<and> orbit_min_ind nty g relabel ! relabelled relabel w = 1"
    if u: "u < ?n" for u
  proof -
    from orbit_minimum_exists[OF u, of ?c] obtain m where m: "orbit_minimum ?c ?n m" "?c ! m = ?c ! u"
      by blast
    then have mn: "m < ?n" by (simp add: orbit_minimum_def)
    show ?thesis
    proof (rule ex1I[of _ m])
      show "m < ?n \<and> ?c ! m = ?c ! u \<and> orbit_min_ind nty g relabel ! relabelled relabel m = 1"
        using mn m bit[OF mn] by simp
    next
      fix w assume w: "w < ?n \<and> ?c ! w = ?c ! u \<and> orbit_min_ind nty g relabel ! relabelled relabel w = 1"
      then have "orbit_minimum ?c ?n w" using bit[of w] by (cases "orbit_minimum ?c ?n w") auto
      from orbit_minimum_unique[OF this m(1)] w m(2) show "w = m" by simp
    qed
  qed
  show ?thesis
  proof (intro conjI allI impI)
    show "length (orbit_min_ind nty g relabel) = ?n" by (rule mk(1))
  next
    fix u assume "u < ?n"
    then show "orbit_min_ind nty g relabel ! relabelled relabel u =
        (if orbit_minimum ?c ?n u then 1 else 0)" by (rule bit)
  next
    fix u assume "u < ?n"
    then show "\<exists>!w. w < ?n \<and> ?c ! w = ?c ! u
        \<and> orbit_min_ind nty g relabel ! relabelled relabel w = 1" by (rule one)
  qed
qed

text \<open>Three disjoint edges, the ends of an edge of one colour: every edge can be turned
  over.\<close>

definition six_points :: graph where
  "six_points = \<lparr>order = 6, edgebuf = [(0, 2), (1, 4), (3, 5)], lab = [0, 2, 1, 4, 3, 5],
     ptn = [1, 0, 1, 0, 1, 0], can = None\<rparr>"

definition six_points_nauty :: nauty where
  "six_points_nauty n e l p =
     \<lparr>out_lab = [0, 2, 1, 4, 3, 5], out_ptn = [0, 0, 0, 0, 0, 0], out_orb = [0, 1, 0, 3, 1, 3],
      out_gen = [[2, 1, 0, 3, 4, 5], [0, 4, 2, 3, 1, 5], [0, 1, 2, 5, 4, 3]], out_idx = [2, 2, 2],
      out_can = [[1], [0], [3], [2], [5], [4]]\<rparr>"


theorem orbit_min_ind_one_per_orbit_witness:
  "is_perm (graph_order six_points) [5, 4, 3, 2, 1, 0]
   \<and> graph_orbits six_points_nauty six_points = [0, 1, 0, 3, 1, 3]
   \<and> orbit_min_ind six_points_nauty six_points (Some [5, 4, 3, 2, 1, 0]) = [0, 0, 1, 0, 1, 1]
   \<and> orbit_min_ind six_points_nauty six_points (Some [5, 4, 3, 2, 1, 0])
        ! relabelled (Some [5, 4, 3, 2, 1, 0]) 3
      = (if orbit_minimum (graph_orbits six_points_nauty six_points) (graph_order six_points) 3
         then 1 else 0)
   \<and> orbit_minimum (graph_orbits six_points_nauty six_points) (graph_order six_points) 3"
proof -
  have p: "case Some [5, 4, 3, 2, 1, 0] of None \<Rightarrow> True
      | Some r \<Rightarrow> is_perm (graph_order six_points) r" by code_simp
  have n: "(3::nat) < graph_order six_points" by code_simp
  have a: "is_perm (graph_order six_points) [5, 4, 3, 2, 1, 0]"
    "graph_orbits six_points_nauty six_points = [0, 1, 0, 3, 1, 3]"
    "orbit_min_ind six_points_nauty six_points (Some [5, 4, 3, 2, 1, 0]) = [0, 0, 1, 0, 1, 1]"
    "orbit_minimum (graph_orbits six_points_nauty six_points) (graph_order six_points) 3"
    by code_simp+
  note t = orbit_min_ind_one_per_orbit[OF p, where nty = six_points_nauty]
  from t[THEN conjunct2, THEN conjunct1, rule_format, OF n]
  have "orbit_min_ind six_points_nauty six_points (Some [5, 4, 3, 2, 1, 0])
        ! relabelled (Some [5, 4, 3, 2, 1, 0]) 3
      = (if orbit_minimum (graph_orbits six_points_nauty six_points) (graph_order six_points) 3
         then 1 else 0)" .
  with a show ?thesis by (intro conjI)
qed

section \<open>The orbit selector\<close>

text \<open>
  \<open>orbit_select\<close>. The innermost loop walks along the cycle of the generator \<open>a\<close> through
  \<open>z\<close>, marking it and counting its length, until it is back at \<open>z\<close>; nothing in the loop
  bounds the walk, so it is a partial function.
\<close>

partial_function (option) cycle_walk ::
  "nat list \<Rightarrow> nat \<Rightarrow> int list \<Rightarrow> nat \<Rightarrow> nat \<Rightarrow> (int list \<times> nat) option" where
  "cycle_walk a z q w len =
     (let q' = q[w := 1]; w' = a ! w; len' = len + 1
      in if z \<noteq> w' then cycle_walk a z q' w' len' else Some (q', len'))"

declare cycle_walk.simps [code]

text \<open>The loop \<open>while(u < l)\<close> over the variable vertices \<open>m[0..l-1]\<close>: the state is the array
  \<open>q\<close> with the counters \<open>num_fixed\<close> and \<open>num_moved\<close>.\<close>

fun mark_vars :: "nat list \<Rightarrow> nat list \<Rightarrow> int list \<times> nat \<times> nat \<Rightarrow> (int list \<times> nat \<times> nat) option" where
  "mark_vars a [] s = Some s"
| "mark_vars a (z # zs) s =
     (case s of (q, num_fixed, num_moved) \<Rightarrow>
        if q ! z = 2 then
          (case cycle_walk a z q z 0 of
             None \<Rightarrow> None
           | Some (q', len) \<Rightarrow>
               mark_vars a zs (q', if len = 1 then num_fixed + len else num_fixed,
                               if len \<ge> 2 then num_moved + len else num_moved))
        else mark_vars a zs s)"

record select_state =
  max_length :: int
  max_p :: nat
  have_good :: bool
  have_first_eligible :: bool
  first_eligible :: int

definition select_init :: select_state where
  "select_init = \<lparr>max_length = - 1, max_p = 0, have_good = False,
     have_first_eligible = False, first_eligible = - 1\<rparr>"

text \<open>One generator \<open>a\<close> on the cell \<open>p[i..j-1]\<close>.\<close>

definition select_update :: "nat list \<Rightarrow> nat \<Rightarrow> nat \<Rightarrow> nat \<Rightarrow> nat \<Rightarrow> select_state \<Rightarrow> select_state" where
  "select_update p i j num_fixed num_moved st =
     (let st1 = (if \<not> have_good st \<and> int (j - i) \<ge> max_length st
                 then st\<lparr>max_length := int (j - i), max_p := p ! i\<rparr> else st)
      in if num_fixed > 0 \<and> num_moved > 0 then
           (if \<not> have_good st1 \<or> int (j - i) > max_length st1
            then st1\<lparr>max_length := int (j - i), max_p := p ! i, have_good := True\<rparr>
            else st1)
         else st1)"

definition select_gen ::
  "nat list \<Rightarrow> nat list \<Rightarrow> nat \<Rightarrow> nat \<Rightarrow> nat list \<Rightarrow> int list \<times> select_state
     \<Rightarrow> (int list \<times> select_state) option" where
  "select_gen m p i j a s =
     (case s of (q, st) \<Rightarrow>
        (case mark_vars a m (foldl (\<lambda>q u. q[p ! (u + i) := 2]) q [0..<j - i], 0, 0) of
           None \<Rightarrow> None
         | Some (q', num_fixed, num_moved) \<Rightarrow>
             Some (q', select_update p i j num_fixed num_moved st)))"

fun select_gens ::
  "nat list \<Rightarrow> nat list \<Rightarrow> nat \<Rightarrow> nat \<Rightarrow> nat list list \<Rightarrow> int list \<times> select_state
     \<Rightarrow> (int list \<times> select_state) option" where
  "select_gens m p i j [] s = Some s"
| "select_gens m p i j (a # as) s =
     (case select_gen m p i j a s of
        None \<Rightarrow> None
      | Some s' \<Rightarrow> select_gens m p i j as s')"

definition note_eligible :: "nat \<Rightarrow> select_state \<Rightarrow> select_state" where
  "note_eligible v st =
     (if \<not> have_first_eligible st
      then st\<lparr>have_first_eligible := True, first_eligible := int v\<rparr> else st)"

function select_cells ::
  "nat \<Rightarrow> nat list \<Rightarrow> nat list \<Rightarrow> nat list \<Rightarrow> nat list list \<Rightarrow> int list \<times> select_state \<Rightarrow> nat
     \<Rightarrow> (int list \<times> select_state) option" where
  "select_cells n c p m gens s i =
     (if i < n then
        (if fst s ! (p ! i) > 0 then
           (case select_gens m p i (run_end n c p i (i + 1)) gens
                   (fst s, note_eligible (p ! i) (snd s)) of
              None \<Rightarrow> None
            | Some s' \<Rightarrow> select_cells n c p m gens s' (run_end n c p i (i + 1)))
         else select_cells n c p m gens s (run_end n c p i (i + 1)))
      else Some s)"
  by pat_completeness auto
termination
proof (relation "measure (\<lambda>(n, c, p, m, gens, s, i). n - i)")
  show "wf (measure (\<lambda>(n, c, p, m, gens, s, i). n - i))" by simp
next
  fix n :: nat and c p m :: "nat list" and gens :: "nat list list"
    and s x2 :: "int list \<times> select_state" and i :: nat
  assume "i < n"
  moreover have "i + 1 \<le> run_end n c p i (i + 1)" by (rule run_end_gt)
  ultimately show "((n, c, p, m, gens, x2, run_end n c p i (i + 1)), (n, c, p, m, gens, s, i))
      \<in> measure (\<lambda>(n, c, p, m, gens, s, i). n - i)" by simp
  from \<open>i < n\<close> \<open>i + 1 \<le> run_end n c p i (i + 1)\<close>
  show "((n, c, p, m, gens, s, run_end n c p i (i + 1)), (n, c, p, m, gens, s, i))
      \<in> measure (\<lambda>(n, c, p, m, gens, s, i). n - i)" by simp
qed

declare select_cells.simps [simp del]

text \<open>The array \<open>q\<close> marks the variable vertices \<open>m\<close> that are not in the prefix \<open>f\<close>; with an
  indicator \<open>t\<close> of the previous traversal the first marked vertex in it is returned at
  once. The first query, \<open>graph_orbit_cells(g)\<close>, is where \<open>graph_getcan\<close> may abort.\<close>

definition select_marks :: "nat \<Rightarrow> nat list \<Rightarrow> nat list \<Rightarrow> int list" where
  "select_marks n m f = foldl (\<lambda>q v. q[v := 0]) (foldl (\<lambda>q v. q[v := 1]) (replicate n 0) m) f"

definition orbit_select ::
  "nauty \<Rightarrow> graph \<Rightarrow> nat list \<Rightarrow> nat list \<Rightarrow> int list option \<Rightarrow> (failure + nat) option" where
  "orbit_select nty g m f t =
     (let n = graph_order g;
          p = graph_orbit_cells nty g;
          c = graph_orbits nty g;
          q = select_marks n m f
      in case graph_getcan_abort nty g of
           Some e \<Rightarrow> Some (Inl e)
         | None \<Rightarrow>
        (case (case t of None \<Rightarrow> None
               | Some ti \<Rightarrow> find (\<lambda>i. q ! i > 0 \<and> ti ! i > 0) [0..<n]) of
           Some i \<Rightarrow> Some (Inr i)
         | None \<Rightarrow>
             (case select_cells n c p m (graph_aut_gens nty g) (q, select_init) 0 of
                None \<Rightarrow> None
              | Some (q', st) \<Rightarrow>
                  if \<not> have_first_eligible st then Some (Inl (ABORT ''no eligible orbit''))
                  else if max_length st \<ge> 2 then Some (Inr (max_p st))
                  else Some (Inr (nat (first_eligible st))))))"

section \<open>The reducer\<close>

text \<open>
  The fields of \<open>reducer_struct\<close> that the search uses (the CNF, the legends, the assignment
  part of the prefix and the flag \<open>verbose\<close> are left out: the model is of a run without
  \<open>--verbose\<close>, and what the program prints is not modelled). \<open>v\<close> and \<open>r\<close> are the lengths of
  \<open>var\<close> and \<open>val\<close>. An array of the program is a list of its capacity; fresh memory holds
  zeros (empty rows for the arrays of arrays).
\<close>

record reducer =
  r_n :: nat
  r_base :: graph
  r_var :: "nat list"
  r_val :: "nat list"
  r_t :: int
  r_prefix_capacity :: nat
  r_target_length :: int
  r_k :: nat
  r_prefix :: "nat list"
  r_initialized :: bool
  r_orbits :: "int list list"
  r_trav_sizes :: "nat list"
  r_trav_ind :: "int list list"
  r_traversals :: "nat list list list"
  r_last_prefix_g :: "graph option"
  r_work :: "int list"
  r_seed_min :: "int list list"
  r_scratch :: "int list"
  r_stack_top :: int
  r_stat_gen :: "int list"
  r_stat_can :: "int list"
  r_stat_out :: "int list"

text \<open>Results of the stateful routines: \<open>None\<close> is a run that does not end, \<open>Some (Inl e)\<close> a
  run that ends in \<open>ERROR\<close> or \<open>ABORT\<close>.\<close>

definition fo_bind :: "(failure + 'a) option \<Rightarrow> ('a \<Rightarrow> (failure + 'b) option) \<Rightarrow> (failure + 'b) option" where
  "fo_bind x f = (case x of None \<Rightarrow> None | Some (Inl e) \<Rightarrow> Some (Inl e) | Some (Inr y) \<Rightarrow> f y)"

definition enlarge :: "'a \<Rightarrow> 'a list \<Rightarrow> nat \<Rightarrow> 'a list" where
  "enlarge z a new_capacity = a @ replicate (new_capacity - length a) z"

definition reducer_enlarge_prefix :: "reducer \<Rightarrow> nat \<Rightarrow> failure + reducer" where
  "reducer_enlarge_prefix r capacity =
     (let c = r_prefix_capacity r in
      if c \<ge> capacity then Inl (ABORT ''new capacity is no larger than old'')
      else if r_initialized r then
        Inr (r\<lparr>r_prefix := enlarge 0 (r_prefix r) capacity,
                r_orbits := enlarge [] (r_orbits r) capacity,
                r_seed_min := enlarge [] (r_seed_min r) capacity,
                r_trav_sizes := enlarge 0 (r_trav_sizes r) capacity,
                r_trav_ind := enlarge [] (r_trav_ind r) capacity,
                r_traversals := enlarge [] (r_traversals r) capacity,
                r_work := enlarge 0 (r_work r) ((2 * capacity + 1) * (capacity + 1)),
                r_scratch := enlarge 0 (r_scratch r) (2 * capacity + 2),
                r_stat_gen := enlarge 0 (r_stat_gen r) capacity,
                r_stat_can := enlarge 0 (r_stat_can r) capacity,
                r_stat_out := enlarge 0 (r_stat_out r) capacity,
                r_prefix_capacity := capacity\<rparr>)
      else Inr (r\<lparr>r_prefix := enlarge 0 (r_prefix r) capacity, r_prefix_capacity := capacity\<rparr>))"

text \<open>The graph of the base with the edges from the first \<open>k\<close> prefix vertices to the first
  value vertex.\<close>

fun add_edges :: "graph \<Rightarrow> (nat \<times> nat) list \<Rightarrow> failure + graph" where
  "add_edges g [] = Inr g"
| "add_edges g ((i, j) # es) =
     (case graph_add_edge g i j of Inl e \<Rightarrow> Inl e | Inr g' \<Rightarrow> add_edges g' es)"

definition prefix_graph :: "reducer \<Rightarrow> nat \<Rightarrow> failure + graph" where
  "prefix_graph r k =
     add_edges (graph_dup (r_base r)) (map (\<lambda>j. (r_prefix r ! j, r_val r ! 0)) [0..<k])"

text \<open>The checks of the base graph at level 0: the variable list is a union of orbits, and
  every value vertex is alone in its orbit.\<close>

function orbits_union_check :: "nat \<Rightarrow> nat list \<Rightarrow> nat list \<Rightarrow> int list \<Rightarrow> nat \<Rightarrow> bool" where
  "orbits_union_check n c p q s =
     (if s < n then
        (if list_ex (\<lambda>j. q ! (p ! j) \<noteq> q ! (p ! s)) [s + 1..<run_end n c p s (s + 1)] then False
         else orbits_union_check n c p q (run_end n c p s (s + 1)))
      else True)"
  by pat_completeness auto
termination
proof (relation "measure (\<lambda>(n, c, p, q, s). n - s)")
  show "wf (measure (\<lambda>(n, c, p, q, s). n - s))" by simp
next
  fix n :: nat and c p :: "nat list" and q :: "int list" and s :: nat
  assume "s < n"
  moreover have "s + 1 \<le> run_end n c p s (s + 1)" by (rule run_end_gt)
  ultimately show "((n, c, p, q, run_end n c p s (s + 1)), (n, c, p, q, s))
      \<in> measure (\<lambda>(n, c, p, q, s). n - s)" by simp
qed

declare orbits_union_check.simps [simp del]

definition value_fixed_check :: "nat \<Rightarrow> nat list \<Rightarrow> nat list \<Rightarrow> nat list \<Rightarrow> bool" where
  "value_fixed_check n c p vals =
     (\<not> list_ex (\<lambda>j. list_ex (\<lambda>w. p ! j = w \<and>
           ((j > 0 \<and> c ! (p ! (j - 1)) = c ! (p ! j)) \<or> (j + 1 < n \<and> c ! (p ! j) = c ! (p ! (j + 1)))))
         vals) [0..<n])"

definition base_check :: "nauty \<Rightarrow> reducer \<Rightarrow> graph \<Rightarrow> failure option" where
  "base_check nty r g =
     (let p = graph_orbit_cells nty g; c = graph_orbits nty g;
          q = foldl (\<lambda>q v. q[v := 1]) (replicate (r_n r) 0) (r_var r)
      in if \<not> orbits_union_check (r_n r) c p q 0
         then Some (ERROR ''variable list is not a union of orbits of base graph'')
         else if \<not> value_fixed_check (r_n r) c p (r_val r)
         then Some (ERROR ''value vertex is not fixed by the automorphism group of the base graph'')
         else None)"

text \<open>The loop \<open>orbits[k][j] = graph_same_orbit(g, prefix[k], j)\<close> over \<open>j < n\<close>.\<close>

fun same_orbit_row :: "nauty \<Rightarrow> graph \<Rightarrow> nat \<Rightarrow> nat list \<Rightarrow> failure + int list" where
  "same_orbit_row nty g v [] = Inr []"
| "same_orbit_row nty g v (j # js) =
     (case graph_same_orbit nty g v j of
        Inl e \<Rightarrow> Inl e
      | Inr b \<Rightarrow>
          (case same_orbit_row nty g v js of
             Inl e \<Rightarrow> Inl e
           | Inr bs \<Rightarrow> Inr ((if b then 1 else 0) # bs)))"

definition those_same_orbit :: "nauty \<Rightarrow> graph \<Rightarrow> nat \<Rightarrow> nat \<Rightarrow> failure + int list" where
  "those_same_orbit nty g v n = same_orbit_row nty g v [0..<n]"

definition indicator :: "nat \<Rightarrow> nat list \<Rightarrow> int list" where
  "indicator n a = foldl (\<lambda>q v. q[v := 1]) (replicate n 0) a"

text \<open>\<open>reducer_expand_prefix(r, k, p, prev)\<close>; it returns the reducer and the new last graph
  of the prefix sequence. The first query of the graph \<open>g\<close> is in \<open>print_aut_order\<close>, the first
  of the new graph in the loop over \<open>graph_same_orbit\<close>.\<close>

definition reducer_expand_prefix ::
  "nauty \<Rightarrow> reducer \<Rightarrow> nat \<Rightarrow> nat \<Rightarrow> graph option \<Rightarrow> (failure + reducer \<times> graph) option" where
  "reducer_expand_prefix nty r0 k p prev =
     (if \<not> r_initialized r0 then Some (Inl (ABORT ''cannot expand an uninitialized prefix''))
      else
        fo_bind (Some (if k + 1 \<ge> r_prefix_capacity r0
                       then reducer_enlarge_prefix r0 (2 * r_prefix_capacity r0 + 1) else Inr r0))
        (\<lambda>r1.
          let r2 = r1\<lparr>r_prefix := (r_prefix r1)[k := p]\<rparr> in
          if k > r_k r2 then Some (Inl (ABORT ''unsupported expansion''))
          else
            let r3 = (if r_k r2 = k
                      then r2\<lparr>r_stat_gen := (r_stat_gen r2)[k := 0],
                               r_stat_can := (r_stat_can r2)[k := 0],
                               r_stat_out := (r_stat_out r2)[k := 0],
                               r_k := k + 1\<rparr>
                      else r2)
            in
            fo_bind (Some (case prev of Some g \<Rightarrow> Inr g | None \<Rightarrow> prefix_graph r3 k))
            (\<lambda>g.
              case (case graph_getcan_abort nty g of
                      Some e \<Rightarrow> Some e
                    | None \<Rightarrow> if k = 0 then base_check nty r3 g else None) of
                Some e \<Rightarrow> Some (Inl e)
              | None \<Rightarrow>
                  fo_bind (traversal_prepare nty (r_prefix r3 ! k) g)
                  (\<lambda>(len, trav).
                    let a = map (\<lambda>j. trav ! j ! (r_prefix r3 ! k)) [0..<len] in
                    fo_bind (Some (prefix_graph r3 (k + 1)))
                    (\<lambda>g'.
                      fo_bind (Some (those_same_orbit nty g' (r_prefix r3 ! k) (r_n r3)))
                      (\<lambda>orbs.
                        Some (Inr (r3\<lparr>r_trav_sizes := (r_trav_sizes r3)[k := len],
                                       r_traversals := (r_traversals r3)[k := trav],
                                       r_trav_ind := (r_trav_ind r3)[k := indicator (r_n r3) a],
                                       r_seed_min := (r_seed_min r3)[k := replicate (r_n r3) 0],
                                       r_orbits := (r_orbits r3)[k := orbs]\<rparr>,
                                   if r_n r3 > 1 then graph_getcan nty g' else g'))))))))"

text \<open>\<open>reducer_initialize\<close>: the arrays are allocated and the levels of the given prefix are
  built one after the other; the last graph is queried once more by \<open>print_aut_order\<close>.\<close>

fun expand_levels ::
  "nauty \<Rightarrow> nat list \<Rightarrow> reducer \<times> graph option \<Rightarrow> (failure + reducer \<times> graph option) option" where
  "expand_levels nty [] s = Some (Inr s)"
| "expand_levels nty (i # is) s =
     (case s of (r, g) \<Rightarrow>
        fo_bind (reducer_expand_prefix nty r i (r_prefix r ! i) g)
          (\<lambda>(r', g'). expand_levels nty is (r', Some g')))"

definition reducer_initialize :: "nauty \<Rightarrow> reducer \<Rightarrow> (failure + reducer) option" where
  "reducer_initialize nty r =
     (if r_initialized r then Some (Inr r)
      else
        let k = r_k r; c = r_prefix_capacity r in
        if k > c then Some (Inl (ABORT ''prefix overrun at init''))
        else
          fo_bind (expand_levels nty [0..<k]
                    (r\<lparr>r_orbits := replicate c [], r_trav_sizes := replicate c 0,
                       r_trav_ind := replicate c [], r_traversals := replicate c [],
                       r_work := replicate ((2 * c + 1) * (c + 1)) 0,
                       r_seed_min := replicate c [], r_scratch := replicate (2 * c + 2) 0,
                       r_stack_top := 0,
                       r_stat_gen := replicate c 0, r_stat_can := replicate c 0,
                       r_stat_out := replicate c 0, r_initialized := True\<rparr>, None))
            (\<lambda>(r', g).
               case g of
                 None \<Rightarrow> Some (Inr r')
               | Some g' \<Rightarrow>
                   (case graph_getcan_abort nty g' of
                      Some e \<Rightarrow> Some (Inl e)
                    | None \<Rightarrow> Some (Inr (r'\<lparr>r_last_prefix_g := Some (graph_getcan nty g')\<rparr>)))))"

subsection \<open>The search\<close>

text \<open>
  The scan for the first traversal position, from \<open>from\<close> on, whose image of the prefix
  vertex \<open>pv\<close> has its bit in \<open>seed_min\<close> set.
\<close>

definition seed_scan :: "int list \<Rightarrow> nat list list \<Rightarrow> nat \<Rightarrow> nat \<Rightarrow> nat \<Rightarrow> nat option" where
  "seed_scan sm trav sz pv from = find (\<lambda>j. sm ! (trav ! j ! pv) \<noteq> 0) [from..<sz]"

text \<open>The top frame of the work stack: its size is the topmost integer, below it lie the
  values and below them the variables.\<close>

definition frame_size :: "reducer \<Rightarrow> nat" where
  "frame_size r = nat (r_work r ! nat (r_stack_top r - 1))"

definition vars_at :: "reducer \<Rightarrow> nat" where
  "vars_at r = nat (r_stack_top r - 1 - 2 * int (frame_size r))"

definition vals_at :: "reducer \<Rightarrow> nat" where
  "vals_at r = nat (r_stack_top r - 1 - int (frame_size r))"

definition frame_vars :: "reducer \<Rightarrow> nat list" where
  "frame_vars r = map (\<lambda>i. nat (r_work r ! (vars_at r + i))) [0..<frame_size r]"

definition frame_vals :: "reducer \<Rightarrow> int list" where
  "frame_vals r = map (\<lambda>i. r_work r ! (vals_at r + i)) [0..<frame_size r]"

text \<open>The search for the current variable: the last pair \<open>(j, i)\<close>, in the order of the two
  nested loops, with \<open>vars[i]\<close> the image of the prefix vertex under traversal \<open>j\<close>.\<close>

definition find_current :: "reducer \<Rightarrow> (nat \<times> nat) option" where
  "find_current r =
     (let sz = frame_size r; lvl = sz - 1 in
      foldl (\<lambda>cur j. foldl (\<lambda>cur i.
                if frame_vars r ! i = r_traversals r ! lvl ! j ! (r_prefix r ! lvl)
                then Some (j, i) else cur) cur [0..<sz])
        None [0..<r_trav_sizes r ! lvl])"

definition inverse_perm :: "nat \<Rightarrow> nat list \<Rightarrow> nat list" where
  "inverse_perm n tr = foldl (\<lambda>nu i. nu[tr ! i := i]) (replicate n 0) [0..<n]"

definition bump :: "int list \<Rightarrow> nat \<Rightarrow> int list" where
  "bump a i = a[i := a ! i + 1]"

text \<open>The expansion of an accepted candidate that is not reported: the prefix grows when
  the frame is as long as the prefix, a frame of size \<open>size + 1\<close> is pushed with the
  normalized assignment, the orbit minima of the candidate's graph become the seed minima
  of the next level, and the new variable is the first one of the next traversal with its
  bit set.\<close>

definition grow_prefix :: "nauty \<Rightarrow> reducer \<Rightarrow> (failure + reducer) option" where
  "grow_prefix nty r =
     (let k = r_k r in
      case r_last_prefix_g r of
        None \<Rightarrow> Some (Inl (ABORT ''no last prefix graph''))
      | Some lpg \<Rightarrow>
          fo_bind (orbit_select nty lpg (r_var r) (take k (r_prefix r))
                     (if k > 0 then Some (r_trav_ind r ! (k - 1)) else None))
            (\<lambda>p. fo_bind (reducer_expand_prefix nty r k p (Some (graph_getcan nty lpg)))
                   (\<lambda>(r', lpg'). Some (Inr (r'\<lparr>r_last_prefix_g := Some lpg'\<rparr>)))))"

definition push_frame :: "nauty \<Rightarrow> reducer \<Rightarrow> nat \<Rightarrow> graph \<Rightarrow> nat list \<Rightarrow> (failure + reducer) option" where
  "push_frame nty r sz g nu =
     (let top = nat (r_stack_top r);
          w1 = (r_work r)[top + 2 * (sz + 1) := int (sz + 1)];
          w2 = foldl (\<lambda>w i. w[top + i := r_scratch r ! (1 + i),
                              top + (sz + 1) + i := r_scratch r ! (1 + sz + i)]) w1 [0..<sz];
          sm = orbit_min_ind nty g (Some nu);
          r1 = r\<lparr>r_work := w2, r_stack_top := r_stack_top r + 2 * (int sz + 1) + 1,
                 r_seed_min := (r_seed_min r)[sz := sm]\<rparr>
      in case seed_scan sm (r_traversals r ! sz) (r_trav_sizes r ! sz) (r_prefix r ! sz) 0 of
           None \<Rightarrow> Some (Inl (ABORT ''no minimum found in extending orbit''))
         | Some s \<Rightarrow>
             Some (Inr (r1\<lparr>r_work := w2[top + sz := int (r_traversals r ! sz ! s ! (r_prefix r ! sz)),
                                        top + (sz + 1) + sz := 0]\<rparr>)))"

definition expand_top :: "nauty \<Rightarrow> reducer \<Rightarrow> nat \<Rightarrow> graph \<Rightarrow> nat list \<Rightarrow> (failure + reducer) option" where
  "expand_top nty r sz g nu =
     fo_bind (if sz + 1 > r_k r then grow_prefix nty r else Some (Inr r))
       (\<lambda>r'. push_frame nty r' sz g nu)"

text \<open>An accepted candidate: the normalized record is written to \<open>scratch\<close>; it is returned
  to the caller (the second component of the result) when the size is the target length
  or the truncated group order is at most the threshold, and expanded otherwise.\<close>

definition normalize_top :: "nauty \<Rightarrow> reducer \<Rightarrow> nat \<Rightarrow> nat list \<Rightarrow> int list \<Rightarrow> nat list \<Rightarrow> graph \<Rightarrow> reducer" where
  "normalize_top nty r sz vars vals nu g =
     (let lvl = sz - 1;
          sc0 = (r_scratch r)[0 := int sz];
          sc1 = foldl (\<lambda>sc i. sc[1 + i := int (nu ! (vars ! i)), 1 + sz + i := vals ! i]) sc0 [0..<sz];
          sc2 = sc1[2 * sz + 1 := aut_order_trunc nty g]
      in r\<lparr>r_stat_can := bump (r_stat_can r) lvl, r_scratch := sc2\<rparr>)"

definition report_top :: "reducer \<Rightarrow> nat \<Rightarrow> reducer" where
  "report_top r sz =
     r\<lparr>r_scratch := foldl (\<lambda>sc i. sc[1 + sz + i := int (r_val r ! nat (sc ! (1 + sz + i)))])
                      (r_scratch r) [0..<sz],
       r_stat_out := bump (r_stat_out r) (sz - 1)\<rparr>"

definition emit_or_expand ::
  "nauty \<Rightarrow> reducer \<Rightarrow> nat \<Rightarrow> nat list \<Rightarrow> int list \<Rightarrow> nat list \<Rightarrow> graph
     \<Rightarrow> (failure + reducer \<times> int list option) option" where
  "emit_or_expand nty r sz vars vals nu g =
     (let r1 = normalize_top nty r sz vars vals nu g;
          aut = aut_order_trunc nty g
      in if int sz = r_target_length r \<or> aut \<le> r_t r then
           (let r2 = report_top r1 sz in Some (Inr (r2, Some (take (2 * sz + 2) (r_scratch r2)))))
         else fo_bind (expand_top nty r1 sz g nu) (\<lambda>r2. Some (Inr (r2, None))))"

text \<open>The isomorph rejection of the candidate on top of the stack, with the value
  \<open>current_val\<close> for the current variable. The first query of the candidate's graph is
  \<open>graph_can_lab\<close>.\<close>

definition candidate_graph :: "reducer \<Rightarrow> nat list \<Rightarrow> int list \<Rightarrow> failure + graph" where
  "candidate_graph r vars vals =
     add_edges (graph_dup (r_base r))
       (map (\<lambda>i. (vars ! i, r_val r ! nat (vals ! i))) [0..<length vars])"

definition process_top ::
  "nauty \<Rightarrow> reducer \<Rightarrow> nat \<Rightarrow> nat \<Rightarrow> nat \<Rightarrow> nat list \<Rightarrow> int list
     \<Rightarrow> (failure + reducer \<times> int list option) option" where
  "process_top nty r sz current current_idx vars vals =
     (let lvl = sz - 1; n = r_n r;
          nu = inverse_perm n (r_traversals r ! lvl ! current)
      in if nu ! (vars ! current_idx) \<noteq> r_prefix r ! lvl then Some (Inl (ABORT ''bad nu''))
         else
           fo_bind (Some (case candidate_graph r vars vals of
                            Inl e \<Rightarrow> Inl e
                          | Inr g \<Rightarrow> (case graph_getcan_abort nty g of
                                       Some e \<Rightarrow> Inl e | None \<Rightarrow> Inr g)))
           (\<lambda>g. case find (\<lambda>t. r_orbits r ! lvl ! (nu ! (graph_can_lab nty g ! t)) \<noteq> 0) [0..<n] of
                   None \<Rightarrow> Some (Inl (ABORT ''bad qlab''))
                 | Some t \<Rightarrow>
                     fo_bind (Some (graph_same_orbit nty g (graph_can_lab nty g ! t) (vars ! current_idx)))
                     (\<lambda>accepted.
                        if accepted then emit_or_expand nty r sz vars vals nu g
                        else Some (Inr (r, None)))))"

text \<open>One round of the loop \<open>while(r->stack_top > 0)\<close>.\<close>

definition reducer_step :: "nauty \<Rightarrow> reducer \<Rightarrow> (failure + reducer \<times> int list option) option" where
  "reducer_step nty r =
     (let sz = frame_size r; lvl = sz - 1; d = length (r_val r);
          popped = r_stack_top r - (2 * int sz + 1)
      in case find_current r of
           None \<Rightarrow> Some (Inl (ABORT ''no current variable''))
         | Some (current, current_idx) \<Rightarrow>
             if sz \<ge> r_prefix_capacity r then Some (Inl (ABORT ''prefix overrun''))
             else
               let current_val = frame_vals r ! current_idx in
               if current_val < int d then
                 process_top nty
                   (r\<lparr>r_stat_gen := bump (r_stat_gen r) lvl,
                      r_work := bump (r_work r) (vals_at r + current_idx)\<rparr>)
                   sz current current_idx (frame_vars r) (frame_vals r)
               else
                 (case seed_scan (r_seed_min r ! lvl) (r_traversals r ! lvl) (r_trav_sizes r ! lvl)
                         (r_prefix r ! lvl) (current + 1) of
                    None \<Rightarrow> Some (Inr (r\<lparr>r_stack_top := popped\<rparr>, None))
                  | Some j \<Rightarrow>
                      Some (Inr (r\<lparr>r_work := (r_work r)
                                      [vars_at r + current_idx :=
                                         int (r_traversals r ! lvl ! j ! (r_prefix r ! lvl)),
                                       vals_at r + current_idx := 0]\<rparr>, None))))"

partial_function (option) reducer_loop ::
  "nauty \<Rightarrow> reducer \<Rightarrow> (failure + reducer \<times> int list option) option" where
  "reducer_loop nty r =
     (if r_stack_top r > 0 then
        (case reducer_step nty r of
           None \<Rightarrow> None
         | Some res \<Rightarrow>
             (case res of
                Inl e \<Rightarrow> Some (Inl e)
              | Inr (r', out) \<Rightarrow>
                  (case out of
                     Some a \<Rightarrow> Some (Inr (r', Some a))
                   | None \<Rightarrow> reducer_loop nty r')))
      else if r_stack_top r < 0 then Some (Inl (ABORT ''work stack out of balance''))
      else Some (Inr (r, None)))"

declare reducer_loop.simps [code]

text \<open>The start of the enumeration, when the stack is empty: \<open>seed_stack\<close> is the part that
  computes the orbit minima of the base graph and puts the first frame on the stack,
  \<open>reducer_start\<close> the whole, with the choice of the first prefix vertex when no prefix is
  given.\<close>

definition seed_stack :: "nauty \<Rightarrow> reducer \<Rightarrow> (failure + reducer) option" where
  "seed_stack nty r1 =
     (case graph_getcan_abort nty (r_base r1) of
        Some e \<Rightarrow> Some (Inl e)
      | None \<Rightarrow>
         (let sm = orbit_min_ind nty (r_base r1) None;
              r2 = r1\<lparr>r_base := graph_getcan nty (r_base r1),
                      r_seed_min := (r_seed_min r1)[0 := sm]\<rparr>
          in case seed_scan sm (r_traversals r2 ! 0) (r_trav_sizes r2 ! 0) (r_prefix r2 ! 0) 0 of
               None \<Rightarrow> Some (Inl (ABORT ''no minimum found for base orbit''))
             | Some p \<Rightarrow>
                 Some (Inr (r2\<lparr>r_work := (r_work r2)
                                 [0 := int (r_traversals r2 ! 0 ! p ! (r_prefix r2 ! 0)), 1 := 0, 2 := 1],
                               r_stack_top := 3,
                               r_stat_out := foldl (\<lambda>a i. a[i := 0]) (r_stat_out r2) [0..<r_k r2],
                               r_stat_gen := foldl (\<lambda>a i. a[i := 0]) (r_stat_gen r2) [0..<r_k r2],
                               r_stat_can := foldl (\<lambda>a i. a[i := 0]) (r_stat_can r2) [0..<r_k r2]\<rparr>))))"

definition reducer_start :: "nauty \<Rightarrow> reducer \<Rightarrow> (failure + reducer) option" where
  "reducer_start nty r =
     fo_bind (if r_k r = 0 then
                fo_bind (orbit_select nty (r_base r) (r_var r) [] None)
                  (\<lambda>p. fo_bind (reducer_expand_prefix nty
                                   (r\<lparr>r_base := graph_getcan nty (r_base r)\<rparr>) 0 p None)
                         (\<lambda>(r', g). Some (Inr (r'\<lparr>r_last_prefix_g := Some g\<rparr>))))
              else Some (Inr r))
       (seed_stack nty)"

definition reducer_get_prefix_assignment ::
  "nauty \<Rightarrow> reducer \<Rightarrow> (failure + reducer \<times> int list option) option" where
  "reducer_get_prefix_assignment nty r =
     (if r_target_length r = 0 then Some (Inr (r, None))
      else fo_bind (if r_stack_top r = 0 then reducer_start nty r else Some (Inr r))
             (\<lambda>r'. reducer_loop nty r'))"

section \<open>The order of the scans\<close>

text \<open>
  The vocabulary of the claim about the scans of the engine: the image of the prefix vertex
  of a level under the \<open>j\<close>-th permutation of the level's traversal; that the position \<open>j\<close>
  holds the smallest vertex with its bit set in \<open>sm\<close> among the images at the positions
  \<open>from, from + 1, ...\<close>; and that no image at these positions has its bit set.
\<close>

definition level_image :: "reducer \<Rightarrow> nat \<Rightarrow> nat \<Rightarrow> nat" where
  "level_image r lvl j = r_traversals r ! lvl ! j ! (r_prefix r ! lvl)"

definition smallest_set :: "int list \<Rightarrow> reducer \<Rightarrow> nat \<Rightarrow> nat \<Rightarrow> nat \<Rightarrow> bool" where
  "smallest_set sm r lvl from j =
     (from \<le> j \<and> j < r_trav_sizes r ! lvl \<and> sm ! level_image r lvl j \<noteq> 0 \<and>
      list_all (\<lambda>j'. sm ! level_image r lvl j' \<noteq> 0 \<longrightarrow> level_image r lvl j \<le> level_image r lvl j')
        [from..<r_trav_sizes r ! lvl])"

definition none_set :: "int list \<Rightarrow> reducer \<Rightarrow> nat \<Rightarrow> nat \<Rightarrow> bool" where
  "none_set sm r lvl from =
     list_all (\<lambda>j. sm ! level_image r lvl j = 0) [from..<r_trav_sizes r ! lvl]"

subsection \<open>An example: two variables that can be exchanged\<close>

text \<open>
  A labeler for the graphs on \<open>n\<close> vertices in which \<open>a\<close> and \<open>b\<close> are the only two vertices of
  one colour: the exchange of \<open>a\<close> and \<open>b\<close> is an automorphism when both have the same
  neighbours among the other vertices, and the group is trivial otherwise; the canonical
  labeling is the fixed order \<open>lay\<close> of the vertices, with \<open>a\<close> and \<open>b\<close> exchanged when \<open>b\<close> has
  the larger neighbourhood.
\<close>

definition nbr_key :: "nat \<Rightarrow> (nat \<times> nat) list \<Rightarrow> nat \<Rightarrow> nat \<Rightarrow> nat \<Rightarrow> nat" where
  "nbr_key n e a b v =
     foldl (\<lambda>acc u. 2 * acc + (if edge_make v u \<in> set e then 1 else 0)) 0
       (filter (\<lambda>u. u \<noteq> a \<and> u \<noteq> b) [0..<n])"

definition pair_nauty :: "nat \<Rightarrow> nat \<Rightarrow> nat list \<Rightarrow> nat list \<Rightarrow> nauty" where
  "pair_nauty a b lay pt n e l p =
     (let ka = nbr_key n e a b a; kb = nbr_key n e a b b;
          swap = (\<lambda>v. if v = a then b else if v = b then a else v);
          cl = (if ka \<ge> kb then lay else map swap lay);
          pos = (\<lambda>v. length (takeWhile (\<lambda>x. x \<noteq> v) cl))
      in \<lparr>out_lab = cl, out_ptn = pt,
          out_orb = (if ka = kb then map (\<lambda>v. if v = b then a else v) [0..<n] else [0..<n]),
          out_gen = (if ka = kb then [map swap [0..<n]] else []),
          out_idx = (if ka = kb then [2] else []),
          out_can = map (\<lambda>i. map pos (filter (\<lambda>u. edge_make (cl ! i) u \<in> set e) [0..<n])) [0..<n]\<rparr>)"

definition two_vars :: graph where
  "two_vars = \<lparr>order = 4, edgebuf = [], lab = [0, 1, 2, 3], ptn = [1, 0, 0, 0], can = None\<rparr>"

definition two_vars_nauty :: nauty where
  "two_vars_nauty = pair_nauty 0 1 [0, 1, 2, 3] [1, 0, 0, 0]"

text \<open>The base graph once \<open>graph_getcan\<close> has run, the graph with the edge from the first
  prefix vertex to the first value, and the reducer for the variables 0 and 1 and the values
  2 and 3 with the target length 2: after \<open>reducer_initialize\<close>, after the expansion of the
  prefix to the vertex 0, and after the first frame has been put on the stack.\<close>

definition two_vars_base :: graph where
  "two_vars_base = two_vars\<lparr>can := Some \<lparr>orb = [0, 0, 2, 3], aut_gen = [[1, 0, 2, 3]], aut_idx = [2, 0]\<rparr>\<rparr>"

definition two_vars_g1 :: graph where
  "two_vars_g1 = \<lparr>order = 4, edgebuf = [(0, 2)], lab = [0, 1, 2, 3], ptn = [1, 0, 0, 0],
      can = Some \<lparr>orb = [0, 1, 2, 3], aut_gen = [], aut_idx = [0]\<rparr>\<rparr>"

definition two_vars_ready :: reducer where
  "two_vars_ready = \<lparr>r_n = 4, r_base = two_vars, r_var = [0, 1], r_val = [2, 3], r_t = 0,
     r_prefix_capacity = 1, r_target_length = 2, r_k = 0, r_prefix = [0],
     r_initialized = True, r_orbits = [[]], r_trav_sizes = [0], r_trav_ind = [[]],
     r_traversals = [[]], r_last_prefix_g = None, r_work = [0, 0, 0, 0, 0, 0], r_seed_min = [[]],
     r_scratch = [0, 0, 0, 0], r_stack_top = 0, r_stat_gen = [0], r_stat_can = [0], r_stat_out = [0]\<rparr>"

definition two_vars_level0 :: reducer where
  "two_vars_level0 = \<lparr>r_n = 4, r_base = two_vars_base, r_var = [0, 1], r_val = [2, 3], r_t = 0,
     r_prefix_capacity = 3, r_target_length = 2, r_k = 1, r_prefix = [0, 0, 0],
     r_initialized = True, r_orbits = [[1, 0, 0, 0], [], []],
     r_trav_sizes = [2, 0, 0], r_trav_ind = [[1, 1, 0, 0], [], []],
     r_traversals = [[[0, 1, 2, 3], [1, 0, 2, 3]], [], []],
     r_last_prefix_g = Some two_vars_g1,
     r_work = replicate 28 0, r_seed_min = [[0, 0, 0, 0], [], []],
     r_scratch = replicate 8 0, r_stack_top = 0,
     r_stat_gen = [0, 0, 0], r_stat_can = [0, 0, 0], r_stat_out = [0, 0, 0]\<rparr>"

definition two_vars_seeded :: reducer where
  "two_vars_seeded = two_vars_level0\<lparr>r_work := [0, 0, 1] @ replicate 25 0,
      r_seed_min := [[1, 0, 1, 1], [], []], r_stack_top := 3\<rparr>"

lemma two_vars_run:
  "reducer_expand_prefix two_vars_nauty (two_vars_ready\<lparr>r_base := two_vars_base\<rparr>) 0 0 None
     = Some (Inr (two_vars_level0\<lparr>r_last_prefix_g := None\<rparr>, two_vars_g1))"
  "seed_stack two_vars_nauty two_vars_level0 = Some (Inr two_vars_seeded)"
  "reducer_start two_vars_nauty two_vars_ready = Some (Inr two_vars_seeded)"
  "traversal_prepare two_vars_nauty 0 two_vars_base = Some (Inr (2, [[0, 1, 2, 3], [1, 0, 2, 3]]))"
  by code_simp+

subsection \<open>The scans\<close>

lemma seed_scan_Some:
  "seed_scan sm t len pv from = Some j \<longleftrightarrow>
     from \<le> j \<and> j < len \<and> sm ! (t ! j ! pv) \<noteq> 0 \<and>
     (\<forall>j'. from \<le> j' \<and> j' < j \<longrightarrow> sm ! (t ! j' ! pv) = 0)"
proof
  assume "seed_scan sm t len pv from = Some j"
  then obtain i where i: "i < len - from" "sm ! (t ! ([from..<len] ! i) ! pv) \<noteq> 0"
      "j = [from..<len] ! i" "\<forall>k<i. \<not> sm ! (t ! ([from..<len] ! k) ! pv) \<noteq> 0"
    unfolding seed_scan_def find_Some_iff by auto
  from i(1,3) have j: "j = from + i" by simp
  have "sm ! (t ! j' ! pv) = 0" if "from \<le> j'" "j' < j" for j'
  proof -
    from that j have k: "j' - from < i" by simp
    with i(1) have "[from..<len] ! (j' - from) = j'" using that by simp
    with i(4) k show ?thesis by fastforce
  qed
  with i j show "from \<le> j \<and> j < len \<and> sm ! (t ! j ! pv) \<noteq> 0 \<and>
     (\<forall>j'. from \<le> j' \<and> j' < j \<longrightarrow> sm ! (t ! j' ! pv) = 0)" by simp
next
  assume a: "from \<le> j \<and> j < len \<and> sm ! (t ! j ! pv) \<noteq> 0 \<and>
     (\<forall>j'. from \<le> j' \<and> j' < j \<longrightarrow> sm ! (t ! j' ! pv) = 0)"
  then have a1: "from \<le> j" "j < len" and a3: "sm ! (t ! j ! pv) \<noteq> 0"
    and a2: "\<And>j'. from \<le> j' \<Longrightarrow> j' < j \<Longrightarrow> sm ! (t ! j' ! pv) = 0" by simp_all
  then have "j - from < length [from..<len]" "[from..<len] ! (j - from) = j" by simp_all
  moreover have "\<not> sm ! (t ! ([from..<len] ! k) ! pv) \<noteq> 0" if "k < j - from" for k
  proof -
    from that a1 have "[from..<len] ! k = from + k" by simp
    moreover from that have "from \<le> from + k" "from + k < j" by simp_all
    ultimately show ?thesis using a2 by simp
  qed
  ultimately show "seed_scan sm t len pv from = Some j"
    unfolding seed_scan_def find_Some_iff
    by (intro exI[of _ "j - from"]) (simp add: a1 a3)
qed

lemma seed_scan_None:
  "seed_scan sm t len pv from = None \<longleftrightarrow>
     (\<forall>j. from \<le> j \<and> j < len \<longrightarrow> sm ! (t ! j ! pv) = 0)"
  by (auto simp: seed_scan_def find_None_iff)

lemma traversal_prepare_images:
  assumes ret: "traversal_prepare nty root g = Some (Inr (len, t))"
  shows "map (\<lambda>j. t ! j ! root) [0..<len] = orbit_list nty g root"
proof -
  have r: "root < graph_order g"
    using ret by (auto simp: traversal_prepare_def Let_def split: if_splits)
  have nf: "first_failure (map (\<lambda>i. graph_same_orbit nty g i root) [0..<graph_order g]) = None"
    using ret r by (auto simp: traversal_prepare_def Let_def split: option.splits)
  from ret traversal_prepare_unfold[OF r nf]
  have l: "len = length (orbit_list nty g root)"
    and v: "\<not> list_ex (\<lambda>j. t ! j ! root \<noteq> orbit_list nty g root ! j) [0..<len]"
    by (auto split: option.splits if_splits)
  from v have "t ! j ! root = orbit_list nty g root ! j" if "j < len" for j
    using that by (auto simp: list_ex_iff)
  with l show ?thesis by (intro nth_equalityI) simp_all
qed

lemma traversal_prepare_orbit:
  assumes ret: "traversal_prepare nty root g = Some (Inr (len, t))"
  shows "orbit_list nty g root = sorted_list_of_set (orbit_of nty g root)"
proof -
  have r: "root < graph_order g"
    using ret by (auto simp: traversal_prepare_def Let_def split: if_splits)
  have nf: "first_failure (map (\<lambda>i. graph_same_orbit nty g i root) [0..<graph_order g]) = None"
    using ret r by (auto simp: traversal_prepare_def Let_def split: option.splits)
  have io: "in_orbit nty g root i \<longleftrightarrow> graph_orbits nty g ! i = graph_orbits nty g ! root"
    if i: "i < graph_order g" for i
  proof -
    from nf i have "\<exists>x. graph_same_orbit nty g i root = Inr x"
      unfolding first_failure_None by simp
    then obtain x where "graph_same_orbit nty g i root = Inr x" by blast
    then show ?thesis using i r
      by (auto simp: in_orbit_def graph_same_orbit_def graph_order_def
               split: if_splits option.splits)
  qed
  then have s: "set (orbit_list nty g root) = orbit_of nty g root"
    by (auto simp: orbit_list_def orbit_of_def)
  have "sorted (orbit_list nty g root)"
    using orbit_list_facts(3)[of nty g root] by (simp add: strict_sorted_iff)
  from sorted_list_of_set.idem_if_sorted_distinct[OF this orbit_list_facts(1)] s
  show ?thesis by simp
qed

lemma scan_least:
  assumes ret: "traversal_prepare nty root g = Some (Inr (len, t))"
    and s: "seed_scan sm t len root from = Some j"
  shows "from \<le> j" "j < len" "sm ! (t ! j ! root) \<noteq> 0"
    "\<And>j'. from \<le> j' \<Longrightarrow> j' < len \<Longrightarrow> sm ! (t ! j' ! root) \<noteq> 0 \<Longrightarrow> t ! j ! root \<le> t ! j' ! root"
proof -
  note im = traversal_prepare_images[OF ret]
  have len: "len = length (orbit_list nty g root)" using arg_cong[OF im, of length] by simp
  have nth: "t ! j ! root = orbit_list nty g root ! j" if "j < len" for j
    using arg_cong[OF im, of "\<lambda>xs. xs ! j"] that by simp
  have mono: "t ! i ! root < t ! j ! root" if "i < j" "j < len" for i j
    using orbit_list_facts(3)[of nty g root] that len
    by (simp add: nth sorted_wrt_iff_nth_less)
  from s show a: "from \<le> j" "j < len" "sm ! (t ! j ! root) \<noteq> 0"
    unfolding seed_scan_Some by simp_all
  fix j' assume j': "from \<le> j'" "j' < len" "sm ! (t ! j' ! root) \<noteq> 0"
  show "t ! j ! root \<le> t ! j' ! root"
  proof (cases "j' < j")
    case True
    with s j' show ?thesis unfolding seed_scan_Some by blast
  next
    case False
    then have "j = j' \<or> j < j'" by auto
    with mono[of j j'] j'(2) show ?thesis by auto
  qed
qed

lemma level_scan:
  assumes tr: "traversal_prepare nty (r_prefix r ! lvl) G
        = Some (Inr (r_trav_sizes r ! lvl, r_traversals r ! lvl))"
  shows "seed_scan sm (r_traversals r ! lvl) (r_trav_sizes r ! lvl) (r_prefix r ! lvl) from = Some j
           \<Longrightarrow> smallest_set sm r lvl from j"
    and "seed_scan sm (r_traversals r ! lvl) (r_trav_sizes r ! lvl) (r_prefix r ! lvl) from = None
           \<Longrightarrow> none_set sm r lvl from"
proof -
  assume s: "seed_scan sm (r_traversals r ! lvl) (r_trav_sizes r ! lvl) (r_prefix r ! lvl) from = Some j"
  from scan_least[OF tr s] show "smallest_set sm r lvl from j"
    by (simp add: smallest_set_def level_image_def list_all_iff)
next
  assume "seed_scan sm (r_traversals r ! lvl) (r_trav_sizes r ! lvl) (r_prefix r ! lvl) from = None"
  then show "none_set sm r lvl from"
    unfolding seed_scan_None by (simp add: none_set_def level_image_def list_all_iff)
qed

lemma reducer_step_advance:
  assumes tr: "traversal_prepare nty (r_prefix r ! (frame_size r - 1)) G
        = Some (Inr (r_trav_sizes r ! (frame_size r - 1), r_traversals r ! (frame_size r - 1)))"
    and fc: "find_current r = Some (current, ci)"
    and cap: "frame_size r < r_prefix_capacity r"
    and full: "int (length (r_val r)) \<le> frame_vals r ! ci"
  shows "(\<exists>j. smallest_set (r_seed_min r ! (frame_size r - 1)) r (frame_size r - 1) (current + 1) j \<and>
            reducer_step nty r =
              Some (Inr (r\<lparr>r_work := (r_work r)
                            [vars_at r + ci := int (level_image r (frame_size r - 1) j),
                             vals_at r + ci := 0]\<rparr>, None)))
       \<or> (none_set (r_seed_min r ! (frame_size r - 1)) r (frame_size r - 1) (current + 1) \<and>
            reducer_step nty r =
              Some (Inr (r\<lparr>r_stack_top := r_stack_top r - (2 * int (frame_size r) + 1)\<rparr>, None)))"
proof (cases "seed_scan (r_seed_min r ! (frame_size r - 1)) (r_traversals r ! (frame_size r - 1))
                (r_trav_sizes r ! (frame_size r - 1)) (r_prefix r ! (frame_size r - 1)) (current + 1)")
  case None
  from level_scan(2)[OF tr None] 
  have "none_set (r_seed_min r ! (frame_size r - 1)) r (frame_size r - 1) (current + 1)" .
  moreover have "reducer_step nty r =
              Some (Inr (r\<lparr>r_stack_top := r_stack_top r - (2 * int (frame_size r) + 1)\<rparr>, None))"
    unfolding reducer_step_def Let_def using fc cap full None by simp
  ultimately show ?thesis by blast
next
  case (Some j)
  from level_scan(1)[OF tr Some]
  have "smallest_set (r_seed_min r ! (frame_size r - 1)) r (frame_size r - 1) (current + 1) j" .
  moreover have "reducer_step nty r =
              Some (Inr (r\<lparr>r_work := (r_work r)
                            [vars_at r + ci := int (level_image r (frame_size r - 1) j),
                             vals_at r + ci := 0]\<rparr>, None))"
    unfolding reducer_step_def Let_def level_image_def using fc cap full Some by simp
  ultimately show ?thesis by blast
qed

lemma foldl_upd2_length:
  "length (foldl (\<lambda>w i. w[a i := f i, b i := h i]) w js) = length w"
  by (induction js arbitrary: w) simp_all

lemma foldl_upd2_other:
  "\<forall>i\<in>set js. a i \<noteq> k \<and> b i \<noteq> k \<Longrightarrow>
     foldl (\<lambda>w i. w[a i := f i, b i := h i]) w js ! k = w ! k"
  by (induction js arbitrary: w) simp_all

lemma push_frame_least:
  assumes tr: "traversal_prepare nty (r_prefix r ! sz) G
        = Some (Inr (r_trav_sizes r ! sz, r_traversals r ! sz))"
    and top: "0 \<le> r_stack_top r" "nat (r_stack_top r) + 2 * sz + 2 < length (r_work r)"
  shows "(\<exists>j r'. smallest_set (orbit_min_ind nty g (Some nu)) r sz 0 j \<and>
            push_frame nty r sz g nu = Some (Inr r') \<and>
            frame_size r' = sz + 1 \<and> frame_vars r' ! sz = level_image r sz j \<and>
            frame_vals r' ! sz = 0)
       \<or> (none_set (orbit_min_ind nty g (Some nu)) r sz 0 \<and>
            push_frame nty r sz g nu = Some (Inl (ABORT ''no minimum found in extending orbit'')))"
proof (cases "seed_scan (orbit_min_ind nty g (Some nu)) (r_traversals r ! sz)
                (r_trav_sizes r ! sz) (r_prefix r ! sz) 0")
  case None
  from level_scan(2)[OF tr None] have "none_set (orbit_min_ind nty g (Some nu)) r sz 0" .
  moreover have "push_frame nty r sz g nu
      = Some (Inl (ABORT ''no minimum found in extending orbit''))"
    unfolding push_frame_def Let_def using None by simp
  ultimately show ?thesis by blast
next
  case (Some j)
  define tp where "tp = nat (r_stack_top r)"
  define w1 where "w1 = (r_work r)[tp + 2 * (sz + 1) := int (sz + 1)]"
  define w2 where "w2 = foldl (\<lambda>w i. w[tp + i := r_scratch r ! (1 + i),
                              tp + (sz + 1) + i := r_scratch r ! (1 + sz + i)]) w1 [0..<sz]"
  define w3 where "w3 = w2[tp + sz := int (level_image r sz j), tp + (sz + 1) + sz := 0]"
  define r' where "r' = r\<lparr>r_work := w3, r_stack_top := r_stack_top r + 2 * (int sz + 1) + 1,
                 r_seed_min := (r_seed_min r)[sz := orbit_min_ind nty g (Some nu)]\<rparr>"
  have pf: "push_frame nty r sz g nu = Some (Inr r')"
    unfolding push_frame_def Let_def r'_def w3_def w2_def w1_def tp_def level_image_def
    using Some by simp
  have l2: "length w2 = length (r_work r)"
    unfolding w2_def w1_def by (simp add: foldl_upd2_length)
  have st: "r_stack_top r' = int tp + 2 * int sz + 3" "r_work r' = w3"
    using top(1) by (simp_all add: r'_def tp_def)
  have b: "tp + 2 * sz + 2 < length w2" using top(2) l2 by (simp add: tp_def)
  have "w2 ! (tp + 2 * sz + 2) = w1 ! (tp + 2 * sz + 2)"
    unfolding w2_def by (rule foldl_upd2_other) auto
  then have "w3 ! (tp + 2 * sz + 2) = int (sz + 1)"
    using b l2 by (simp add: w3_def w1_def)
  moreover have "nat (r_stack_top r' - 1) = tp + 2 * sz + 2" using st(1) by simp
  ultimately have fs: "frame_size r' = sz + 1" by (simp add: frame_size_def st(2))
  have va: "vars_at r' = tp" "vals_at r' = tp + sz + 1"
    using st(1) fs by (simp_all add: vars_at_def vals_at_def)
  have "w3 ! (tp + sz) = int (level_image r sz j)" using b by (simp add: w3_def)
  then have fv: "frame_vars r' ! sz = level_image r sz j"
    by (simp add: frame_vars_def fs va st(2) del: upt_Suc)
  have "w3 ! (tp + sz + 1 + sz) = 0" using b by (simp add: w3_def)
  then have fl: "frame_vals r' ! sz = 0"
    by (simp add: frame_vals_def fs va st(2) del: upt_Suc)
  from level_scan(1)[OF tr Some] pf fs fv fl show ?thesis by blast
qed

lemma seed_stack_least:
  assumes tr: "traversal_prepare nty (r_prefix r ! 0) G
        = Some (Inr (r_trav_sizes r ! 0, r_traversals r ! 0))"
    and ok: "graph_getcan_abort nty (r_base r) = None"
    and wl: "3 \<le> length (r_work r)"
  shows "(\<exists>j r'. smallest_set (orbit_min_ind nty (r_base r) None) r 0 0 j \<and>
            seed_stack nty r = Some (Inr r') \<and> r_stack_top r' = 3 \<and>
            frame_size r' = 1 \<and> frame_vars r' = [level_image r 0 j] \<and> frame_vals r' = [0])
       \<or> (none_set (orbit_min_ind nty (r_base r) None) r 0 0 \<and>
            seed_stack nty r = Some (Inl (ABORT ''no minimum found for base orbit'')))"
proof (cases "seed_scan (orbit_min_ind nty (r_base r) None) (r_traversals r ! 0)
                (r_trav_sizes r ! 0) (r_prefix r ! 0) 0")
  case None
  from level_scan(2)[OF tr None] have "none_set (orbit_min_ind nty (r_base r) None) r 0 0" .
  moreover have "seed_stack nty r = Some (Inl (ABORT ''no minimum found for base orbit''))"
    unfolding seed_stack_def Let_def using None ok by simp
  ultimately show ?thesis by blast
next
  case (Some j)
  then obtain r' where ss: "seed_stack nty r = Some (Inr r')"
    and st: "r_stack_top r' = 3"
    and w: "r_work r' = (r_work r)[0 := int (level_image r 0 j), 1 := 0, 2 := 1]"
    unfolding seed_stack_def Let_def level_image_def using ok by simp
  have fs: "frame_size r' = 1" using wl by (simp add: frame_size_def st w)
  have va: "vars_at r' = 0" "vals_at r' = 1" by (simp_all add: vars_at_def vals_at_def st fs)
  have wl': "0 < length (r_work r)" "1 < length (r_work r)" using wl by auto
  have "frame_vars r' = [level_image r 0 j]" "frame_vals r' = [0]"
    using wl' by (simp_all add: frame_vars_def frame_vals_def fs va w)
  with level_scan(1)[OF tr Some] ss st fs show ?thesis by blast
qed

lemma reducer_expand_prefix_level:
  assumes ex: "reducer_expand_prefix nty r k p prev = Some (Inr (r', g'))"
    and lens: "length (r_traversals r) = r_prefix_capacity r"
      "length (r_trav_sizes r) = r_prefix_capacity r"
      "length (r_prefix r) = r_prefix_capacity r"
    and kc: "r_k r \<le> r_prefix_capacity r"
  shows "\<exists>G. traversal_prepare nty p G = Some (Inr (r_trav_sizes r' ! k, r_traversals r' ! k))
             \<and> r_prefix r' ! k = p"
proof -
  from ex have init: "r_initialized r"
    by (auto simp: reducer_expand_prefix_def split: if_splits)
  define r1 where "r1 = (if k + 1 \<ge> r_prefix_capacity r
      then (case reducer_enlarge_prefix r (2 * r_prefix_capacity r + 1) of Inr x \<Rightarrow> x) else r)"
  have e1: "(if k + 1 \<ge> r_prefix_capacity r
             then reducer_enlarge_prefix r (2 * r_prefix_capacity r + 1) else Inr r) = Inr r1"
    by (simp add: r1_def reducer_enlarge_prefix_def Let_def init)
  have k1: "r_k r1 = r_k r"
    by (simp add: r1_def reducer_enlarge_prefix_def Let_def init)
  from ex have kk: "k \<le> r_k r"
    unfolding reducer_expand_prefix_def e1 fo_bind_def Let_def
    by (simp add: init k1 split: if_splits)
  have l1: "k < length (r_traversals r1)" "k < length (r_trav_sizes r1)" "k < length (r_prefix r1)"
    using kk kc lens by (auto simp: r1_def reducer_enlarge_prefix_def Let_def init enlarge_def)
  have "\<exists>g len trav. traversal_prepare nty p g = Some (Inr (len, trav))
      \<and> r_trav_sizes r' = (r_trav_sizes r1)[k := len]
      \<and> r_traversals r' = (r_traversals r1)[k := trav]
      \<and> r_prefix r' = (r_prefix r1)[k := p]"
    using ex init kk k1 l1
    unfolding reducer_expand_prefix_def e1 fo_bind_def Let_def
    apply (auto split: if_splits option.splits sum.splits prod.splits)
                   apply blast+
    done
  then obtain g len trav where tp: "traversal_prepare nty p g = Some (Inr (len, trav))"
    and f: "r_trav_sizes r' = (r_trav_sizes r1)[k := len]"
      "r_traversals r' = (r_traversals r1)[k := trav]"
      "r_prefix r' = (r_prefix r1)[k := p]" by blast
  have "r_trav_sizes r' ! k = len" "r_traversals r' ! k = trav" "r_prefix r' ! k = p"
    using l1 by (simp_all add: f)
  with tp show ?thesis by auto
qed

subsection \<open>The scans of the engine\<close>

text \<open>Further states of the example: after the first candidate (variable 0 with the first
  value) has been accepted and the prefix has grown to the vertices 0 and 1, before and
  after the frame of size 2 is pushed; the first frame with the values of its variable
  used up; and the same with every bit of \<open>seed_min\<close> set.\<close>

definition two_vars_g2 :: graph where
  "two_vars_g2 = \<lparr>order = 4, edgebuf = [(0, 2), (1, 2)], lab = [0, 1, 2, 3], ptn = [1, 0, 0, 0],
      can = Some \<lparr>orb = [0, 0, 2, 3], aut_gen = [[1, 0, 2, 3]], aut_idx = [2, 0]\<rparr>\<rparr>"

definition two_vars_level1 :: reducer where
  "two_vars_level1 = \<lparr>r_n = 4, r_base = two_vars_base, r_var = [0, 1], r_val = [2, 3], r_t = 0,
     r_prefix_capacity = 3, r_target_length = 2, r_k = 2, r_prefix = [0, 1, 0],
     r_initialized = True, r_orbits = [[1, 0, 0, 0], [1, 1, 0, 0], []],
     r_trav_sizes = [2, 1, 0], r_trav_ind = [[1, 1, 0, 0], [0, 1, 0, 0], []],
     r_traversals = [[[0, 1, 2, 3], [1, 0, 2, 3]], [[0, 1, 2, 3]], []],
     r_last_prefix_g = Some two_vars_g2,
     r_work = [0, 1, 1] @ replicate 25 0, r_seed_min = [[1, 0, 1, 1], [0, 0, 0, 0], []],
     r_scratch = [1, 0, 0, 1, 0, 0, 0, 0], r_stack_top = 3,
     r_stat_gen = [1, 0, 0], r_stat_can = [1, 0, 0], r_stat_out = [0, 0, 0]\<rparr>"

definition two_vars_pushed :: reducer where
  "two_vars_pushed = two_vars_level1\<lparr>r_work := [0, 1, 1, 0, 1, 0, 0, 2] @ replicate 20 0,
      r_seed_min := [[1, 0, 1, 1], [1, 1, 1, 1], []], r_stack_top := 8\<rparr>"

definition two_vars_candidate :: graph where
  "two_vars_candidate = \<lparr>order = 4, edgebuf = [(0, 2)], lab = [0, 1, 2, 3], ptn = [1, 0, 0, 0],
      can = None\<rparr>"

definition two_vars_exhausted :: reducer where
  "two_vars_exhausted = two_vars_seeded\<lparr>r_work := [0, 2, 1] @ replicate 25 0\<rparr>"

definition two_vars_all_set :: reducer where
  "two_vars_all_set = two_vars_exhausted\<lparr>r_seed_min := [[1, 1, 1, 1], [], []]\<rparr>"

lemma two_vars_step:
  "reducer_step two_vars_nauty two_vars_seeded = Some (Inr (two_vars_pushed, None))"
  "push_frame two_vars_nauty two_vars_level1 1 two_vars_candidate [0, 1, 2, 3]
     = Some (Inr two_vars_pushed)"
  "traversal_prepare two_vars_nauty 1 two_vars_g1 = Some (Inr (1, [[0, 1, 2, 3]]))"
  by code_simp+

text \<open>
  Claim C10. When \<open>graph_getcan\<close> returns for the graph, the root is a vertex and the
  labeler keeps its contract (the generators are permutations, keep every vertex in its
  orbit and reach the whole orbit of the root from the root), \<open>traversal_prepare\<close> returns a
  traversal whose images of the root, \<open>t ! j ! root\<close> for \<open>j = 0, 1, ...\<close>, are the vertices of
  the root's orbit in ascending order: the \<open>j\<close>-th image is the \<open>j\<close>-th smallest vertex of the
  orbit.

  \<open>reducer_expand_prefix\<close> stores, at the level \<open>k\<close> it builds, a traversal that
  \<open>traversal_prepare\<close> has returned for the new prefix vertex. For a reducer with such a
  traversal at the level \<open>lvl\<close>, the images of the prefix vertex are the orbit in ascending
  order, and each of the three scans of the engine picks the smallest vertex with its bit
  set: \<open>seed_stack\<close> (the first frame, level 0, all positions), \<open>push_frame\<close> (the new variable
  of a pushed frame, all positions of its level) and the step that advances the variable
  (the positions after the current one); when no bit is set the first two abort and the
  step pops the frame.
\<close>

theorem traversal_ascending_scan:
  "(root < graph_order g \<and> graph_getcan_abort nty g = None
      \<and> list_all (is_perm (graph_order g)) (graph_aut_gens nty g)
      \<and> list_all (\<lambda>p. list_all (\<lambda>u. graph_orbits nty g ! (p ! u) = graph_orbits nty g ! u)
                  [0..<graph_order g]) (graph_aut_gens nty g)
      \<and> orbit_of nty g root \<subseteq> gen_reach (graph_aut_gens nty g) root
    \<longrightarrow> (\<exists>t. traversal_prepare nty root g = Some (Inr (card (orbit_of nty g root), t))
          \<and> map (\<lambda>j. t ! j ! root) [0..<card (orbit_of nty g root)]
              = sorted_list_of_set (orbit_of nty g root)))
   \<and> (reducer_expand_prefix nty r0 k p prev = Some (Inr (r1, g1))
      \<and> length (r_traversals r0) = r_prefix_capacity r0
      \<and> length (r_trav_sizes r0) = r_prefix_capacity r0
      \<and> length (r_prefix r0) = r_prefix_capacity r0
      \<and> r_k r0 \<le> r_prefix_capacity r0
    \<longrightarrow> (\<exists>G0. traversal_prepare nty p G0 = Some (Inr (r_trav_sizes r1 ! k, r_traversals r1 ! k))
          \<and> r_prefix r1 ! k = p))
   \<and> (traversal_prepare nty (r_prefix r ! lvl) G
        = Some (Inr (r_trav_sizes r ! lvl, r_traversals r ! lvl))
    \<longrightarrow> map (level_image r lvl) [0..<r_trav_sizes r ! lvl]
          = sorted_list_of_set (orbit_of nty G (r_prefix r ! lvl))
      \<and> (lvl = 0 \<and> graph_getcan_abort nty (r_base r) = None \<and> 3 \<le> length (r_work r)
         \<longrightarrow> (\<exists>j r'. smallest_set (orbit_min_ind nty (r_base r) None) r 0 0 j \<and>
                  seed_stack nty r = Some (Inr r') \<and> r_stack_top r' = 3 \<and>
                  frame_size r' = 1 \<and> frame_vars r' = [level_image r 0 j] \<and> frame_vals r' = [0])
             \<or> (none_set (orbit_min_ind nty (r_base r) None) r 0 0 \<and>
                  seed_stack nty r = Some (Inl (ABORT ''no minimum found for base orbit''))))
      \<and> (0 \<le> r_stack_top r \<and> nat (r_stack_top r) + 2 * lvl + 2 < length (r_work r)
         \<longrightarrow> (\<exists>j r'. smallest_set (orbit_min_ind nty h (Some nu)) r lvl 0 j \<and>
                  push_frame nty r lvl h nu = Some (Inr r') \<and>
                  frame_size r' = lvl + 1 \<and> frame_vars r' ! lvl = level_image r lvl j \<and>
                  frame_vals r' ! lvl = 0)
             \<or> (none_set (orbit_min_ind nty h (Some nu)) r lvl 0 \<and>
                  push_frame nty r lvl h nu
                    = Some (Inl (ABORT ''no minimum found in extending orbit''))))
      \<and> (frame_size r = lvl + 1 \<and> find_current r = Some (current, ci)
           \<and> frame_size r < r_prefix_capacity r \<and> int (length (r_val r)) \<le> frame_vals r ! ci
         \<longrightarrow> (\<exists>j. smallest_set (r_seed_min r ! lvl) r lvl (current + 1) j \<and>
                  reducer_step nty r =
                    Some (Inr (r\<lparr>r_work := (r_work r)
                                  [vars_at r + ci := int (level_image r lvl j),
                                   vals_at r + ci := 0]\<rparr>, None)))
             \<or> (none_set (r_seed_min r ! lvl) r lvl (current + 1) \<and>
                  reducer_step nty r =
                    Some (Inr (r\<lparr>r_stack_top := r_stack_top r - (2 * int (frame_size r) + 1)\<rparr>,
                               None)))))"
  (is "(?H1 \<longrightarrow> ?C1) \<and> (?H2 \<longrightarrow> ?C2) \<and> (?H3 \<longrightarrow> ?C3a \<and> (?H3b \<longrightarrow> ?C3b) \<and> (?H3c \<longrightarrow> ?C3c) \<and> (?H3d \<longrightarrow> ?C3d))")
proof (intro conjI impI)
  assume h: ?H1
  then have r: "root < graph_order g" and ok: "graph_getcan_abort nty g = None" by simp_all
  from h traversal_prepare_total[of root g nty]
  obtain t where ret: "traversal_prepare nty root g = Some (Inr (length (orbit_list nty g root), t))"
    by blast
  note LO = orbit_list_orbit_of[OF ok r]
  from traversal_prepare_images[OF ret] LO(2)
  have "map (\<lambda>j. t ! j ! root) [0..<length (orbit_list nty g root)]
      = sorted_list_of_set (orbit_of nty g root)" by simp
  with ret show ?C1 unfolding LO(3) by blast
next
  assume ?H2
  then show ?C2 using reducer_expand_prefix_level[of nty r0 k p prev r1 g1] by blast
next
  assume tr: ?H3
  have "level_image r lvl = (\<lambda>j. r_traversals r ! lvl ! j ! (r_prefix r ! lvl))"
    by (rule ext) (simp add: level_image_def)
  with traversal_prepare_images[OF tr] traversal_prepare_orbit[OF tr]
  show ?C3a by simp
next
  assume tr: ?H3 and h: ?H3b
  then have tr0: "traversal_prepare nty (r_prefix r ! 0) G
        = Some (Inr (r_trav_sizes r ! 0, r_traversals r ! 0))" by simp
  from seed_stack_least[OF tr0] h show ?C3b by simp
next
  assume tr: ?H3 and h: ?H3c
  from push_frame_least[OF tr, where g = h and nu = nu] h show ?C3c by simp
next
  assume tr: ?H3 and h: ?H3d
  then have fs: "frame_size r - 1 = lvl" by simp
  from h reducer_step_advance[of nty r G current ci] tr show ?C3d unfolding fs by simp
qed

text \<open>The path of three vertices for the traversal, and the example run for the engine.\<close>

theorem traversal_ascending_scan_witness:
  "2 < graph_order three_path
   \<and> graph_getcan_abort three_path_nauty three_path = None
   \<and> list_all (is_perm (graph_order three_path)) (graph_aut_gens three_path_nauty three_path)
   \<and> list_all (\<lambda>p. list_all (\<lambda>u. graph_orbits three_path_nauty three_path ! (p ! u)
                                  = graph_orbits three_path_nauty three_path ! u)
                  [0..<graph_order three_path]) (graph_aut_gens three_path_nauty three_path)
   \<and> orbit_of three_path_nauty three_path 2
        \<subseteq> gen_reach (graph_aut_gens three_path_nauty three_path) 2
   \<and> (\<exists>t. traversal_prepare three_path_nauty 2 three_path = Some (Inr (2, t))
          \<and> map (\<lambda>j. t ! j ! 2) [0..<2] = [0, 2])
   \<and> reducer_expand_prefix two_vars_nauty (two_vars_ready\<lparr>r_base := two_vars_base\<rparr>) 0 0 None
        = Some (Inr (two_vars_level0\<lparr>r_last_prefix_g := None\<rparr>, two_vars_g1))
   \<and> (\<exists>G0. traversal_prepare two_vars_nauty 0 G0 = Some (Inr (2, [[0, 1, 2, 3], [1, 0, 2, 3]])))
   \<and> traversal_prepare two_vars_nauty (r_prefix two_vars_level0 ! 0) two_vars_base
        = Some (Inr (r_trav_sizes two_vars_level0 ! 0, r_traversals two_vars_level0 ! 0))
   \<and> seed_stack two_vars_nauty two_vars_level0 = Some (Inr two_vars_seeded)
   \<and> frame_vars two_vars_seeded = [0]
   \<and> (\<exists>j. smallest_set (orbit_min_ind two_vars_nauty two_vars_base None) two_vars_level0 0 0 j
          \<and> level_image two_vars_level0 0 j = 0)
   \<and> traversal_prepare two_vars_nauty (r_prefix two_vars_level1 ! 1) two_vars_g1
        = Some (Inr (r_trav_sizes two_vars_level1 ! 1, r_traversals two_vars_level1 ! 1))
   \<and> push_frame two_vars_nauty two_vars_level1 1 two_vars_candidate [0, 1, 2, 3]
        = Some (Inr two_vars_pushed)
   \<and> frame_vars two_vars_pushed = [0, 1]
   \<and> (\<exists>j. smallest_set (orbit_min_ind two_vars_nauty two_vars_candidate (Some [0, 1, 2, 3]))
             two_vars_level1 1 0 j
          \<and> level_image two_vars_level1 1 j = 1)
   \<and> find_current two_vars_exhausted = Some (0, 0)
   \<and> int (length (r_val two_vars_exhausted)) \<le> frame_vals two_vars_exhausted ! 0
   \<and> none_set (r_seed_min two_vars_exhausted ! 0) two_vars_exhausted 0 1
   \<and> reducer_step two_vars_nauty two_vars_exhausted
        = Some (Inr (two_vars_exhausted\<lparr>r_stack_top := 0\<rparr>, None))
   \<and> smallest_set (r_seed_min two_vars_all_set ! 0) two_vars_all_set 0 1 1
   \<and> reducer_step two_vars_nauty two_vars_all_set
        = Some (Inr (two_vars_all_set\<lparr>r_work := [1, 0, 1] @ replicate 25 0\<rparr>, None))"
proof -
  have h: "2 < graph_order three_path"
    "graph_getcan_abort three_path_nauty three_path = None"
    "list_all (is_perm (graph_order three_path)) (graph_aut_gens three_path_nauty three_path)"
    "list_all (\<lambda>p. list_all (\<lambda>u. graph_orbits three_path_nauty three_path ! (p ! u)
                                  = graph_orbits three_path_nauty three_path ! u)
                  [0..<graph_order three_path]) (graph_aut_gens three_path_nauty three_path)"
    by code_simp+
  have c: "orbit_of three_path_nauty three_path 2
        \<subseteq> gen_reach (graph_aut_gens three_path_nauty three_path) 2"
    using three_path_reach by (simp add: three_path_orbit three_path_facts)
  have s: "sorted_list_of_set (orbit_of three_path_nauty three_path 2) = [0, 2]"
    by (simp add: three_path_orbit)
  have hc: "2 < graph_order three_path \<and> graph_getcan_abort three_path_nauty three_path = None
      \<and> list_all (is_perm (graph_order three_path)) (graph_aut_gens three_path_nauty three_path)
      \<and> list_all (\<lambda>p. list_all (\<lambda>u. graph_orbits three_path_nauty three_path ! (p ! u)
                                  = graph_orbits three_path_nauty three_path ! u)
                  [0..<graph_order three_path]) (graph_aut_gens three_path_nauty three_path)
      \<and> orbit_of three_path_nauty three_path 2
            \<subseteq> gen_reach (graph_aut_gens three_path_nauty three_path) 2"
    using h c by blast
  have c2: "card {0 :: nat, 2} = 2" by simp
  from traversal_ascending_scan[where root = 2 and g = three_path and nty = three_path_nauty,
      THEN conjunct1, THEN mp, OF hc]
  have a: "\<exists>t. traversal_prepare three_path_nauty 2 three_path = Some (Inr (2, t))
          \<and> map (\<lambda>j. t ! j ! 2) [0..<2] = [0, 2]"
    unfolding three_path_orbit c2 by simp
  have e: "length (r_traversals (two_vars_ready\<lparr>r_base := two_vars_base\<rparr>))
        = r_prefix_capacity (two_vars_ready\<lparr>r_base := two_vars_base\<rparr>)"
    "length (r_trav_sizes (two_vars_ready\<lparr>r_base := two_vars_base\<rparr>))
        = r_prefix_capacity (two_vars_ready\<lparr>r_base := two_vars_base\<rparr>)"
    "length (r_prefix (two_vars_ready\<lparr>r_base := two_vars_base\<rparr>))
        = r_prefix_capacity (two_vars_ready\<lparr>r_base := two_vars_base\<rparr>)"
    "r_k (two_vars_ready\<lparr>r_base := two_vars_base\<rparr>)
        \<le> r_prefix_capacity (two_vars_ready\<lparr>r_base := two_vars_base\<rparr>)"
    "r_trav_sizes (two_vars_level0\<lparr>r_last_prefix_g := None\<rparr>) ! 0 = 2"
    "r_traversals (two_vars_level0\<lparr>r_last_prefix_g := None\<rparr>) ! 0 = [[0, 1, 2, 3], [1, 0, 2, 3]]"
    by (simp_all add: two_vars_ready_def two_vars_level0_def)
  from traversal_ascending_scan[where nty = two_vars_nauty
      and ?r0.0 = "two_vars_ready\<lparr>r_base := two_vars_base\<rparr>" and k = 0 and p = 0 and prev = None
      and ?r1.0 = "two_vars_level0\<lparr>r_last_prefix_g := None\<rparr>" and ?g1.0 = two_vars_g1,
      THEN conjunct2, THEN conjunct1, THEN mp, OF conjI[OF two_vars_run(1) conjI[OF e(1)
        conjI[OF e(2) conjI[OF e(3) e(4)]]]]]
  have b: "\<exists>G0. traversal_prepare two_vars_nauty 0 G0 = Some (Inr (2, [[0, 1, 2, 3], [1, 0, 2, 3]]))"
    unfolding e(5,6) by blast
  have l0: "traversal_prepare two_vars_nauty (r_prefix two_vars_level0 ! 0) two_vars_base
        = Some (Inr (r_trav_sizes two_vars_level0 ! 0, r_traversals two_vars_level0 ! 0))"
    using two_vars_run(4) by (simp add: two_vars_level0_def)
  have l0h: "graph_getcan_abort two_vars_nauty (r_base two_vars_level0) = None"
    "3 \<le> length (r_work two_vars_level0)" "frame_vars two_vars_seeded = [0]"
    by code_simp+
  have rb: "r_base two_vars_level0 = two_vars_base" by (simp add: two_vars_level0_def)
  from traversal_ascending_scan[where nty = two_vars_nauty and r = two_vars_level0 and lvl = 0
      and G = two_vars_base, THEN conjunct2, THEN conjunct2, THEN mp, OF l0,
      THEN conjunct2, THEN conjunct1, THEN mp, OF conjI[OF refl conjI[OF l0h(1) l0h(2)]]]
  have d: "\<exists>j. smallest_set (orbit_min_ind two_vars_nauty two_vars_base None) two_vars_level0 0 0 j
          \<and> level_image two_vars_level0 0 j = 0"
    unfolding two_vars_run(2) rb using l0h(3) by auto
  have l1: "traversal_prepare two_vars_nauty (r_prefix two_vars_level1 ! 1) two_vars_g1
        = Some (Inr (r_trav_sizes two_vars_level1 ! 1, r_traversals two_vars_level1 ! 1))"
    using two_vars_step(3) by (simp add: two_vars_level1_def)
  have l1h: "0 \<le> r_stack_top two_vars_level1"
    "nat (r_stack_top two_vars_level1) + 2 * 1 + 2 < length (r_work two_vars_level1)"
    "frame_vars two_vars_pushed = [0, 1]"
    by code_simp+
  from traversal_ascending_scan[where nty = two_vars_nauty and r = two_vars_level1 and lvl = 1
      and G = two_vars_g1 and h = two_vars_candidate and nu = "[0, 1, 2, 3]",
      THEN conjunct2, THEN conjunct2, THEN mp, OF l1,
      THEN conjunct2, THEN conjunct2, THEN conjunct1, THEN mp, OF conjI[OF l1h(1) l1h(2)]]
  have f: "\<exists>j. smallest_set (orbit_min_ind two_vars_nauty two_vars_candidate (Some [0, 1, 2, 3]))
             two_vars_level1 1 0 j
          \<and> level_image two_vars_level1 1 j = 1"
    unfolding two_vars_step(2) using l1h(3) by auto
  have x: "find_current two_vars_exhausted = Some (0, 0)"
    "int (length (r_val two_vars_exhausted)) \<le> frame_vals two_vars_exhausted ! 0"
    "none_set (r_seed_min two_vars_exhausted ! 0) two_vars_exhausted 0 1"
    "reducer_step two_vars_nauty two_vars_exhausted
        = Some (Inr (two_vars_exhausted\<lparr>r_stack_top := 0\<rparr>, None))"
    "smallest_set (r_seed_min two_vars_all_set ! 0) two_vars_all_set 0 1 1"
    "reducer_step two_vars_nauty two_vars_all_set
        = Some (Inr (two_vars_all_set\<lparr>r_work := [1, 0, 1] @ replicate 25 0\<rparr>, None))"
    by code_simp+
  from h c a two_vars_run(1,2) b l0 l0h(3) d l1 two_vars_step(2) l1h(3) f x
  show ?thesis by simp
qed

section \<open>The emission condition\<close>


subsection \<open>The record in \<open>scratch\<close> and the pushed frame\<close>










subsection \<open>Return or expand\<close>







section \<open>The prefix and the variable list\<close>

text \<open>
  The colours of \<open>graph_parse\<close>: \<open>lab\<close> is the identity sorted by colour (the indirect
  heapsort), and \<open>ptn\<close> is 0 at the end of every colour class.

  The tests at the end of \<open>reducer_parse\<close> for a run without a CNF (option \<open>--no-cnf\<close>,
  \<open>have_cnf = 0\<close>): the target length against the prefix length, the three tests for a
  repeated element (the sorted copy has two equal neighbours), and the test of the prefix
  against \<open>var_trans\<close>. Without a CNF the array \<open>var_trans\<close> is the fresh block \<open>mem\<close> of \<open>n\<close>
  integers in which the entries \<open>0, ..., v - 1\<close> are set to their own index; the test reads
  the entry of every prefix vertex and fails when it is \<open>-1\<close>.
\<close>

definition colour_cells :: "nat list \<Rightarrow> nat list \<times> nat list" where
  "colour_cells colors =
     (let n = length colors; l = heapsort_int_indirect colors [0..<n]
      in (l, map (\<lambda>i. if i = n - 1 \<or> colors ! (l ! i) \<noteq> colors ! (l ! (i + 1)) then 0 else 1)
                 [0..<n]))"

definition repeats :: "nat list \<Rightarrow> bool" where
  "repeats a = (let q = heapsort_int a in list_ex (\<lambda>i. q ! (i - 1) = q ! i) [1..<length a])"

definition var_trans_plain :: "int list \<Rightarrow> nat \<Rightarrow> int list" where
  "var_trans_plain mem v = foldl (\<lambda>a i. a[i := int i]) mem [0..<v]"

definition reducer_parse_checks :: "int list \<Rightarrow> reducer \<Rightarrow> failure option" where
  "reducer_parse_checks mem r =
     (if r_target_length r \<le> 0 \<and> r_k r = 0
      then Some (ERROR ''no prefix given and nonpositive target length for prefix'')
      else if int (r_k r) > r_target_length r
      then Some (ERROR ''length of given prefix exceeds given target length for prefix'')
      else if repeats (r_var r) then Some (ERROR ''variable list repeats an element'')
      else if repeats (r_val r) then Some (ERROR ''value list repeats an element'')
      else if repeats (take (r_k r) (r_prefix r)) then Some (ERROR ''prefix repeats an element'')
      else if list_ex (\<lambda>i. var_trans_plain mem (length (r_var r)) ! (r_prefix r ! i) = - 1)
                [0..<r_k r]
      then Some (ERROR ''prefix element is not a declared variable vertex'')
      else None)"

text \<open>An example: four vertices without edges, the vertex 0 of a colour of its own, the
  vertices 1 and 2 of one colour, declared as the variables, and the vertex 3 the only
  value; the prefix given in the input is the vertex 0, which is no variable. The labeler
  is the one for two vertices that can be exchanged.\<close>

definition outsider_graph :: graph where
  "outsider_graph = \<lparr>order = 4, edgebuf = [], lab = [0, 2, 1, 3], ptn = [0, 1, 0, 0], can = None\<rparr>"

definition outsider_nauty :: nauty where
  "outsider_nauty = pair_nauty 1 2 [0, 1, 2, 3] [0, 1, 0, 0]"

definition outsider_parsed :: reducer where
  "outsider_parsed = \<lparr>r_n = 4, r_base = outsider_graph, r_var = [1, 2], r_val = [3], r_t = 0,
     r_prefix_capacity = 1, r_target_length = 1, r_k = 1, r_prefix = [0],
     r_initialized = False, r_orbits = [], r_trav_sizes = [], r_trav_ind = [],
     r_traversals = [], r_last_prefix_g = None, r_work = [], r_seed_min = [],
     r_scratch = [], r_stack_top = 0, r_stat_gen = [], r_stat_can = [], r_stat_out = []\<rparr>"

definition outsider_g1 :: graph where
  "outsider_g1 = \<lparr>order = 4, edgebuf = [(0, 3)], lab = [0, 1, 2, 3], ptn = [0, 1, 0, 0],
     can = Some \<lparr>orb = [0, 1, 1, 3], aut_gen = [[0, 2, 1, 3]], aut_idx = [2, 0]\<rparr>\<rparr>"

definition outsider_ready :: reducer where
  "outsider_ready = \<lparr>r_n = 4, r_base = outsider_graph, r_var = [1, 2], r_val = [3], r_t = 0,
     r_prefix_capacity = 3, r_target_length = 1, r_k = 1, r_prefix = [0, 0, 0],
     r_initialized = True, r_orbits = [[1, 0, 0, 0], [], []],
     r_trav_sizes = [1, 0, 0], r_trav_ind = [[1, 0, 0, 0], [], []],
     r_traversals = [[[0, 1, 2, 3]], [], []], r_last_prefix_g = Some outsider_g1,
     r_work = replicate 28 0, r_seed_min = [[0, 0, 0, 0], [], []],
     r_scratch = replicate 8 0, r_stack_top = 0,
     r_stat_gen = [0, 0, 0], r_stat_can = [0, 0, 0], r_stat_out = [0, 0, 0]\<rparr>"

definition outsider_done :: reducer where
  "outsider_done = outsider_ready\<lparr>
     r_base := outsider_graph\<lparr>lab := [0, 1, 2, 3],
                                can := Some \<lparr>orb = [0, 1, 1, 3], aut_gen = [[0, 2, 1, 3]],
                                              aut_idx = [2, 0]\<rparr>\<rparr>,
     r_work := [0, 1, 1] @ replicate 25 0, r_seed_min := [[1, 1, 0, 1], [], []],
     r_scratch := [1, 0, 3, 2, 0, 0, 0, 0], r_stack_top := 3,
     r_stat_gen := [1, 0, 0], r_stat_can := [1, 0, 0], r_stat_out := [1, 0, 0]\<rparr>"

lemma outsider_checks: "reducer_parse_checks (m0 # ms) outsider_parsed = None"
proof -
  have "\<not> repeats [1, 2]" "\<not> repeats [3]" "\<not> repeats [0]" by code_simp+
  moreover have "var_trans_plain (m0 # ms) (Suc (Suc 0)) ! 0 = 0"
    by (simp add: var_trans_plain_def)
  ultimately show ?thesis
    by (simp add: reducer_parse_checks_def outsider_parsed_def)
qed

lemma outsider_run:
  "colour_cells [0, 1, 1, 2] = (lab outsider_graph, ptn outsider_graph)"
  "reducer_initialize outsider_nauty outsider_parsed = Some (Inr outsider_ready)"
  "reducer_get_prefix_assignment outsider_nauty outsider_ready
     = Some (Inr (outsider_done, Some [1, 0, 3, 2]))"
  by code_simp+

text \<open>
  Claim C8 says that the variables of every record that \<open>reducer_get_prefix_assignment\<close>
  returns are vertices of the variable list. For the example, the tests of \<open>reducer_parse\<close>
  pass whatever the fresh block holds, the initialization succeeds, and the first record
  returned is \<open>1, 0, 3, 2\<close>: size 1, the variable 0, the value vertex 3, the group order 2.
  The vertex 0 is not in the variable list \<open>[1, 2]\<close>.
\<close>

theorem prefix_outside_variables:
  "colour_cells [0, 1, 1, 2] = (lab outsider_graph, ptn outsider_graph)
   \<and> r_var outsider_parsed = [1, 2] \<and> r_val outsider_parsed = [3]
   \<and> r_prefix outsider_parsed = [0] \<and> 0 \<notin> set (r_var outsider_parsed)
   \<and> reducer_parse_checks (m0 # ms) outsider_parsed = None
   \<and> reducer_initialize outsider_nauty outsider_parsed = Some (Inr outsider_ready)
   \<and> reducer_get_prefix_assignment outsider_nauty outsider_ready
        = Some (Inr (outsider_done, Some [1, 0, 3, 2]))"
  using outsider_checks[of m0 ms] outsider_run(1,2,3) by (simp add: outsider_parsed_def)

end
